theory Spec2Isabelle
  imports Complex_Main "HOL-Library.Sublist"
begin

section \<open>HashMap.h: an insertion-ordered hash table\<close>

text \<open>
  The C++ class \<^verbatim>\<open>HashMap<KeyType, ValueType, Hash>\<close> keeps every entry in a
  heap-allocated \<^verbatim>\<open>HashMapNode\<close> that is referenced from two containers through
  \<^verbatim>\<open>std::shared_ptr\<close>: from one chain of the vector \<^verbatim>\<open>buckets\<close> and from the list
  \<^verbatim>\<open>nodes_sequence\<close>. The embedding keeps this sharing: nodes live in an explicit
  store, and both containers hold addresses into it.

  \<^item> An address is the index of the node in the store. \<^verbatim>\<open>std::make_shared\<close> appends a
    node; a node that is no longer referenced is never looked at again, which is all a
    \<^verbatim>\<open>shared_ptr\<close> release can be observed to do.
  \<^item> \<^verbatim>\<open>size_t\<close> values (\<^verbatim>\<open>sz\<close>, \<^verbatim>\<open>capacity\<close>, hash values, bucket indices) are natural
    numbers. The one place where the source can pass below zero, \<^verbatim>\<open>--sz\<close>, has the
    64-bit wrap-around written out. \<^verbatim>\<open>++sz\<close> and \<^verbatim>\<open>capacity *= 2\<close> do not wrap: they
    would need more than \<open>2^63\<close> nodes in memory.
  \<^item> Behaviour that C++ leaves undefined (\<^verbatim>\<open>pop_front\<close> on an empty list, indexing a
    vector out of range, erasing or dereferencing a position that is not in the list,
    a remainder by zero) is the error value \<open>Undefined\<close>, and so is the use of an
    address outside the store, which no \<^verbatim>\<open>shared_ptr\<close> of the source can hold; the
    exception \<^verbatim>\<open>std::out_of_range\<close> thrown by \<^verbatim>\<open>at\<close> is the error value \<open>OutOfRange\<close>.
\<close>

datatype error = OutOfRange | Undefined

subsection \<open>Positions of the order sequence\<close>

text \<open>
  A \<^verbatim>\<open>std::list<pNode>::iterator\<close> denotes a cell of \<^verbatim>\<open>nodes_sequence\<close> or the position
  past its last cell. Cells of a \<^verbatim>\<open>std::list\<close> never move, and the only statement that
  creates a cell, \<^verbatim>\<open>nodes_sequence.push_front(new_node)\<close> in \<^verbatim>\<open>_insert\<close>, stores a
  freshly allocated node in it. A cell is therefore named by the address it holds.
\<close>

datatype PosIterator = Cell nat | PastEnd

subsection \<open>HashMapNode\<close>

record ('k, 'v) Node =
  map_pair :: "'k \<times> 'v"
  sequence_pos :: PosIterator
  bucket_index :: nat

definition key :: "('k, 'v) Node \<Rightarrow> 'k" where
  "key n = fst (map_pair n)"

definition value_of :: "('k, 'v) Node \<Rightarrow> 'v" where
  "value_of n = snd (map_pair n)"

subsection \<open>The container state\<close>

record ('k, 'v) HashMap =
  store :: "('k, 'v) Node list"
  buckets :: "nat list list"
  nodes_sequence :: "nat list"
  capacity :: nat
  sz :: nat
  hasher :: "'k \<Rightarrow> nat"

text \<open>
  \<^verbatim>\<open>MAX_LOAD_FACTOR = 0.7\<close> is a \<^verbatim>\<open>double\<close>: the binary64 number nearest to 7/10,
  which is \<open>6305039478318694 / 2^53\<close>. Dividing it by 4 is exact. The quotient
  \<^verbatim>\<open>static_cast<double>(sz) / capacity\<close> is exact as well whenever \<^verbatim>\<open>capacity\<close> is a power
  of two and \<^verbatim>\<open>sz\<close> is below \<open>2^53\<close>, so the comparison of \<^verbatim>\<open>check_load_factor\<close> is
  a comparison of rational numbers.
\<close>

definition MAX_LOAD_FACTOR :: rat where
  "MAX_LOAD_FACTOR = 6305039478318694 / 2 ^ 53"

definition INIT_CAPACITY :: nat where
  "INIT_CAPACITY = 16"

subsection \<open>Primitive operations of the standard containers\<close>

definition bucket_at :: "nat list list \<Rightarrow> nat \<Rightarrow> error + nat list" where
  \<comment> \<open>\<^verbatim>\<open>buckets[i]\<close>\<close>
  "bucket_at bs i = (if i < length bs then Inr (bs ! i) else Inl Undefined)"

definition pop_front :: "nat list \<Rightarrow> error + nat list" where
  "pop_front xs = (case xs of [] \<Rightarrow> Inl Undefined | _ # ys \<Rightarrow> Inr ys)"

definition vector_resize :: "nat \<Rightarrow> nat list list \<Rightarrow> nat list list" where
  \<comment> \<open>\<^verbatim>\<open>buckets.resize(n)\<close> and \<^verbatim>\<open>buckets.resize(n, BucketType())\<close>: cut off or fill up
      with empty chains\<close>
  "vector_resize n bs = take n bs @ replicate (n - length bs) []"

definition list_erase :: "PosIterator \<Rightarrow> nat list \<Rightarrow> error + nat list" where
  \<comment> \<open>\<^verbatim>\<open>nodes_sequence.erase(pos)\<close>\<close>
  "list_erase pos xs =
     (case pos of
        PastEnd \<Rightarrow> Inl Undefined
      | Cell p \<Rightarrow> if p \<in> set xs then Inr (remove1 p xs) else Inl Undefined)"

subsection \<open>Construction, iterators, accessors\<close>

definition HashMap_init :: "('k \<Rightarrow> nat) \<Rightarrow> ('k, 'v) HashMap" where
  "HashMap_init h =
     \<lparr>store = [], buckets = replicate INIT_CAPACITY [], nodes_sequence = [],
      capacity = INIT_CAPACITY, sz = 0, hasher = h\<rparr>"

definition begin_hm :: "('k, 'v) HashMap \<Rightarrow> PosIterator" where
  "begin_hm s = (case nodes_sequence s of [] \<Rightarrow> PastEnd | p # _ \<Rightarrow> Cell p)"

definition end_hm :: "('k, 'v) HashMap \<Rightarrow> PosIterator" where
  "end_hm s = PastEnd"

fun next_cell :: "nat \<Rightarrow> nat list \<Rightarrow> error + PosIterator" where
  "next_cell p [] = Inl Undefined"
| "next_cell p (q # qs) =
     (if q = p then Inr (case qs of [] \<Rightarrow> PastEnd | r # _ \<Rightarrow> Cell r) else next_cell p qs)"

definition incr :: "('k, 'v) HashMap \<Rightarrow> PosIterator \<Rightarrow> error + PosIterator" where
  \<comment> \<open>\<^verbatim>\<open>operator++\<close>\<close>
  "incr s it =
     (case it of PastEnd \<Rightarrow> Inl Undefined | Cell p \<Rightarrow> next_cell p (nodes_sequence s))"

definition deref :: "('k, 'v) HashMap \<Rightarrow> PosIterator \<Rightarrow> error + ('k \<times> 'v)" where
  \<comment> \<open>\<^verbatim>\<open>operator*\<close>, \<^verbatim>\<open>operator->\<close>\<close>
  "deref s it =
     (case it of
        PastEnd \<Rightarrow> Inl Undefined
      | Cell p \<Rightarrow>
          if p \<in> set (nodes_sequence s) \<and> p < length (store s)
          then Inr (map_pair (store s ! p)) else Inl Undefined)"

definition size_hm :: "('k, 'v) HashMap \<Rightarrow> nat" where
  "size_hm s = sz s"

definition empty_hm :: "('k, 'v) HashMap \<Rightarrow> bool" where
  "empty_hm s = (sz s = 0)"

definition get_hash :: "('k, 'v) HashMap \<Rightarrow> 'k \<Rightarrow> error + nat" where
  "get_hash s k = (if capacity s = 0 then Inl Undefined else Inr (hasher s k mod capacity s))"

subsection \<open>rehash and check_load_factor\<close>

text \<open>
  The loop of \<^verbatim>\<open>rehash\<close> walks \<^verbatim>\<open>nodes_sequence\<close>, which it does not change, and updates
  the chains and the cached \<^verbatim>\<open>bucket_index\<close> of each node in place.
\<close>

fun rehash_loop :: "nat list \<Rightarrow> ('k, 'v) HashMap \<Rightarrow> error + ('k, 'v) HashMap" where
  "rehash_loop [] s = Inr s"
| "rehash_loop (p # ps) s =
     (if length (store s) \<le> p then Inl Undefined else
      case (if bucket_index (store s ! p) < capacity s
            then (case bucket_at (buckets s) (bucket_index (store s ! p)) of
                    Inl e \<Rightarrow> Inl e
                  | Inr b \<Rightarrow> (case pop_front b of
                      Inl e \<Rightarrow> Inl e
                    | Inr b' \<Rightarrow> Inr ((buckets s)[bucket_index (store s ! p) := b'])))
            else Inr (buckets s)) of
        Inl e \<Rightarrow> Inl e
      | Inr bs \<Rightarrow>
          (case get_hash s (key (store s ! p)) of
             Inl e \<Rightarrow> Inl e
           | Inr i \<Rightarrow>
               (case bucket_at bs i of
                  Inl e \<Rightarrow> Inl e
                | Inr b \<Rightarrow>
                    rehash_loop ps
                      (s\<lparr>store := (store s)[p := (store s ! p)\<lparr>bucket_index := i\<rparr>],
                         buckets := bs[i := b @ [p]]\<rparr>))))"

definition rehash :: "('k, 'v) HashMap \<Rightarrow> error + ('k, 'v) HashMap" where
  "rehash s =
     rehash_loop (nodes_sequence s) (s\<lparr>buckets := vector_resize (capacity s) (buckets s)\<rparr>)"

definition check_load_factor :: "('k, 'v) HashMap \<Rightarrow> error + ('k, 'v) HashMap" where
  "check_load_factor s =
     (let load_factor = (of_nat (sz s) :: rat) / of_nat (capacity s) in
      if load_factor \<ge> MAX_LOAD_FACTOR then rehash (s\<lparr>capacity := capacity s * 2\<rparr>)
      else if capacity s > INIT_CAPACITY \<and> load_factor \<le> MAX_LOAD_FACTOR / 4
        then rehash (s\<lparr>capacity := capacity s div 2\<rparr>)
      else Inr s)"

subsection \<open>find, insert, operator[], erase, at, clear\<close>

fun find_loop :: "('k, 'v) HashMap \<Rightarrow> 'k \<Rightarrow> nat list \<Rightarrow> error + PosIterator" where
  "find_loop s k [] = Inr (end_hm s)"
| "find_loop s k (p # ps) =
     (if length (store s) \<le> p then Inl Undefined
      else if key (store s ! p) = k then Inr (sequence_pos (store s ! p))
      else find_loop s k ps)"

definition find_hm :: "('k, 'v) HashMap \<Rightarrow> 'k \<Rightarrow> error + PosIterator" where
  "find_hm s k =
     (case get_hash s k of
        Inl e \<Rightarrow> Inl e
      | Inr i \<Rightarrow> (case bucket_at (buckets s) i of
          Inl e \<Rightarrow> Inl e
        | Inr bucket \<Rightarrow> find_loop s k bucket))"

definition insert_node ::
  "('k, 'v) HashMap \<Rightarrow> 'k \<times> 'v \<Rightarrow> error + (('k, 'v) HashMap \<times> PosIterator)" where
  \<comment> \<open>\<^verbatim>\<open>_insert\<close>: insertion without any checks\<close>
  "insert_node s mp =
     (case check_load_factor (s\<lparr>sz := sz s + 1\<rparr>) of
        Inl e \<Rightarrow> Inl e
      | Inr s1 \<Rightarrow>
          (let new_node = length (store s1) in
           case get_hash s1 (fst mp) of
             Inl e \<Rightarrow> Inl e
           | Inr i \<Rightarrow>
               (case bucket_at (buckets s1) i of
                  Inl e \<Rightarrow> Inl e
                | Inr bucket \<Rightarrow>
                    Inr (s1\<lparr>store := store s1 @
                               [\<lparr>map_pair = mp, sequence_pos = Cell new_node, bucket_index = i\<rparr>],
                            buckets := (buckets s1)[i := new_node # bucket],
                            nodes_sequence := new_node # nodes_sequence s1\<rparr>,
                         Cell new_node))))"

definition insert_hm :: "('k, 'v) HashMap \<Rightarrow> 'k \<times> 'v \<Rightarrow> error + ('k, 'v) HashMap" where
  "insert_hm s mp =
     (case find_hm s (fst mp) of
        Inl e \<Rightarrow> Inl e
      | Inr it \<Rightarrow>
          if it = end_hm s
          then (case insert_node s mp of Inl e \<Rightarrow> Inl e | Inr (s', _) \<Rightarrow> Inr s')
          else Inr s)"

definition index_op ::
  "'v \<Rightarrow> ('k, 'v) HashMap \<Rightarrow> 'k \<Rightarrow> error + (('k, 'v) HashMap \<times> PosIterator)" where
  \<comment> \<open>\<^verbatim>\<open>operator[]\<close>; \<open>d\<close> is \<^verbatim>\<open>ValueType()\<close>. The reference it returns is
      \<^verbatim>\<open>it->second\<close>, given here by the position \<open>it\<close>.\<close>
  "index_op d s k =
     (case find_hm s k of
        Inl e \<Rightarrow> Inl e
      | Inr it \<Rightarrow>
          (case (if it = end_hm s then insert_node s (k, d) else Inr (s, it)) of
             Inl e \<Rightarrow> Inl e
           | Inr (s', it') \<Rightarrow>
               (case deref s' it' of Inl e \<Rightarrow> Inl e | Inr _ \<Rightarrow> Inr (s', it'))))"

definition read_ref :: "('k, 'v) HashMap \<Rightarrow> PosIterator \<Rightarrow> error + 'v" where
  \<comment> \<open>reading through the reference \<^verbatim>\<open>it->second\<close>\<close>
  "read_ref s it = (case deref s it of Inl e \<Rightarrow> Inl e | Inr mp \<Rightarrow> Inr (snd mp))"

definition write_ref :: "('k, 'v) HashMap \<Rightarrow> PosIterator \<Rightarrow> 'v \<Rightarrow> error + ('k, 'v) HashMap" where
  \<comment> \<open>assigning through the reference \<^verbatim>\<open>it->second\<close>\<close>
  "write_ref s it v =
     (case it of
        PastEnd \<Rightarrow> Inl Undefined
      | Cell p \<Rightarrow>
          if p \<in> set (nodes_sequence s) \<and> p < length (store s)
          then Inr (s\<lparr>store := (store s)[p := (store s ! p)\<lparr>map_pair := (key (store s ! p), v)\<rparr>]\<rparr>)
          else Inl Undefined)"

fun erase_loop ::
  "('k, 'v) HashMap \<Rightarrow> 'k \<Rightarrow> nat list \<Rightarrow> nat list \<Rightarrow> error + (nat \<times> nat list) option" where
  \<comment> \<open>the scan of \<^verbatim>\<open>erase\<close>: \<open>front\<close> is the part of the chain already passed; the result
      is the node found and the chain after \<^verbatim>\<open>bucket.erase(it)\<close>\<close>
  "erase_loop s k front [] = Inr None"
| "erase_loop s k front (p # ps) =
     (if length (store s) \<le> p then Inl Undefined
      else if key (store s ! p) = k then Inr (Some (p, front @ ps))
      else erase_loop s k (front @ [p]) ps)"

definition erase :: "('k, 'v) HashMap \<Rightarrow> 'k \<Rightarrow> error + ('k, 'v) HashMap" where
  "erase s k =
     (case get_hash s k of
        Inl e \<Rightarrow> Inl e
      | Inr i \<Rightarrow> (case bucket_at (buckets s) i of
          Inl e \<Rightarrow> Inl e
        | Inr bucket \<Rightarrow> (case erase_loop s k [] bucket of
            Inl e \<Rightarrow> Inl e
          | Inr None \<Rightarrow> Inr s
          | Inr (Some (node_pnt, bucket')) \<Rightarrow>
              (case list_erase (sequence_pos (store s ! node_pnt)) (nodes_sequence s) of
                 Inl e \<Rightarrow> Inl e
               | Inr seq' \<Rightarrow>
                   check_load_factor
                     (s\<lparr>nodes_sequence := seq',
                        buckets := (buckets s)[i := bucket'],
                        sz := (if sz s = 0 then 2 ^ 64 - 1 else sz s - 1)\<rparr>)))))"

definition at_hm :: "('k, 'v) HashMap \<Rightarrow> 'k \<Rightarrow> error + 'v" where
  "at_hm s k =
     (case find_hm s k of
        Inl e \<Rightarrow> Inl e
      | Inr it \<Rightarrow> if it = end_hm s then Inl OutOfRange else read_ref s it)"

fun clear_loop :: "('k, 'v) HashMap \<Rightarrow> nat list \<Rightarrow> nat list list \<Rightarrow> error + nat list list" where
  "clear_loop s [] bs = Inr bs"
| "clear_loop s (pnt # ps) bs =
     (if length (store s) \<le> pnt then Inl Undefined else
      case bucket_at bs (bucket_index (store s ! pnt)) of
        Inl e \<Rightarrow> Inl e
      | Inr b \<Rightarrow> (case pop_front b of
          Inl e \<Rightarrow> Inl e
        | Inr b' \<Rightarrow> clear_loop s ps (bs[bucket_index (store s ! pnt) := b'])))"

definition resize :: "nat \<Rightarrow> ('k, 'v) HashMap \<Rightarrow> ('k, 'v) HashMap" where
  "resize new_cap s = s\<lparr>capacity := new_cap, buckets := vector_resize new_cap (buckets s)\<rparr>"

definition clear :: "('k, 'v) HashMap \<Rightarrow> error + ('k, 'v) HashMap" where
  "clear s =
     (case clear_loop s (nodes_sequence s) (buckets s) of
        Inl e \<Rightarrow> Inl e
      | Inr bs \<Rightarrow> Inr ((resize INIT_CAPACITY (s\<lparr>buckets := bs, nodes_sequence := []\<rparr>))\<lparr>sz := 0\<rparr>))"

subsection \<open>Client code: sequences of public operations, traversal\<close>

text \<open>
  The operations that can change the container. \<open>Index k\<close> is an evaluation of
  \<^verbatim>\<open>m[k]\<close> that only reads the reference; \<open>Assign k v\<close> is \<^verbatim>\<open>m[k] = v\<close>.

  \<open>IterWrite k v\<close> is the write through a non-const iterator, whose \<^verbatim>\<open>operator*\<close> and
  \<^verbatim>\<open>operator->\<close> return the mutable pair of the node:
  \<^verbatim>\<open>it = m.find(k); if (it != m.end()) it->second = v;\<close>. The test against \<^verbatim>\<open>end()\<close>
  keeps the client code defined where \<open>k\<close> is absent. Every position of a live node is
  the position that \<^verbatim>\<open>find\<close> returns for the node's key, so this covers the writes through
  iterators obtained from \<^verbatim>\<open>begin()\<close> and \<^verbatim>\<open>operator++\<close> as well.
\<close>

datatype ('k, 'v) op =
  Insert 'k 'v | Index 'k | Assign 'k 'v | IterWrite 'k 'v | Erase 'k | Clear

definition apply_op :: "'v \<Rightarrow> ('k, 'v) HashMap \<Rightarrow> ('k, 'v) op \<Rightarrow> error + ('k, 'v) HashMap" where
  "apply_op d s x =
     (case x of
        Insert k v \<Rightarrow> insert_hm s (k, v)
      | Index k \<Rightarrow> (case index_op d s k of Inl e \<Rightarrow> Inl e | Inr (s', _) \<Rightarrow> Inr s')
      | Assign k v \<Rightarrow> (case index_op d s k of Inl e \<Rightarrow> Inl e | Inr (s', it) \<Rightarrow> write_ref s' it v)
      | IterWrite k v \<Rightarrow>
          (case find_hm s k of
             Inl e \<Rightarrow> Inl e
           | Inr it \<Rightarrow> if it = end_hm s then Inr s else write_ref s it v)
      | Erase k \<Rightarrow> erase s k
      | Clear \<Rightarrow> clear s)"

fun apply_ops :: "'v \<Rightarrow> ('k, 'v) HashMap \<Rightarrow> ('k, 'v) op list \<Rightarrow> error + ('k, 'v) HashMap" where
  "apply_ops d s [] = Inr s"
| "apply_ops d s (x # xs) =
     (case apply_op d s x of Inl e \<Rightarrow> Inl e | Inr s' \<Rightarrow> apply_ops d s' xs)"

text \<open>
  The loop \<^verbatim>\<open>for (it = m.begin(); it != m.end(); ++it) out.push_back(*it);\<close> with a bound
  on the number of rounds: \<open>None\<close> means that the bound was reached before the loop
  ended.
\<close>

fun traverse ::
  "nat \<Rightarrow> ('k, 'v) HashMap \<Rightarrow> PosIterator \<Rightarrow> (error + ('k \<times> 'v) list) option" where
  "traverse 0 s it = (if it = end_hm s then Some (Inr []) else None)"
| "traverse (Suc n) s it =
     (if it = end_hm s then Some (Inr [])
      else case deref s it of
        Inl e \<Rightarrow> Some (Inl e)
      | Inr mp \<Rightarrow> (case incr s it of
          Inl e \<Rightarrow> Some (Inl e)
        | Inr it' \<Rightarrow> (case traverse n s it' of
            None \<Rightarrow> None
          | Some (Inl e) \<Rightarrow> Some (Inl e)
          | Some (Inr r) \<Rightarrow> Some (Inr (mp # r)))))"

definition iterate :: "nat \<Rightarrow> ('k, 'v) HashMap \<Rightarrow> (error + ('k \<times> 'v) list) option" where
  "iterate n s = traverse n s (begin_hm s)"

subsection \<open>Abstraction and invariant\<close>

definition entries :: "('k, 'v) HashMap \<Rightarrow> ('k \<times> 'v) list" where
  \<comment> \<open>the pairs of the nodes of the order sequence, head first\<close>
  "entries s = map (\<lambda>p. map_pair (store s ! p)) (nodes_sequence s)"

definition chain_of :: "('k, 'v) Node list \<Rightarrow> nat \<Rightarrow> nat list \<Rightarrow> nat list" where
  \<comment> \<open>the nodes of a sequence whose cached bucket index is \<open>i\<close>, in the order of the
      sequence\<close>
  "chain_of st i ps = filter (\<lambda>p. bucket_index (st ! p) = i) ps"

definition chains_ok :: "('k, 'v) HashMap \<Rightarrow> bool" where
  "chains_ok s \<longleftrightarrow>
     0 < capacity s \<and>
     length (buckets s) = capacity s \<and>
     distinct (nodes_sequence s) \<and>
     distinct (map (\<lambda>p. key (store s ! p)) (nodes_sequence s)) \<and>
     (\<forall>p \<in> set (nodes_sequence s).
        p < length (store s) \<and>
        sequence_pos (store s ! p) = Cell p \<and>
        bucket_index (store s ! p) = hasher s (key (store s ! p)) mod capacity s) \<and>
     (\<forall>i < capacity s. buckets s ! i = chain_of (store s) i (nodes_sequence s))"

definition invar :: "('k, 'v) HashMap \<Rightarrow> bool" where
  "invar s \<longleftrightarrow>
     chains_ok s \<and> sz s = length (nodes_sequence s) \<and> (\<exists>n. capacity s = INIT_CAPACITY * 2 ^ n)"

definition cap_after :: "nat \<Rightarrow> nat \<Rightarrow> nat" where
  \<comment> \<open>the capacity that \<^verbatim>\<open>check_load_factor\<close> chooses for a size and a capacity\<close>
  "cap_after n c =
     (if (of_nat n :: rat) / of_nat c \<ge> MAX_LOAD_FACTOR then c * 2
      else if c > INIT_CAPACITY \<and> (of_nat n :: rat) / of_nat c \<le> MAX_LOAD_FACTOR / 4 then c div 2
      else c)"

text \<open>Two stores hold the same pairs and positions; only cached bucket indices may differ.\<close>

definition same_pairs :: "('k, 'v) Node list \<Rightarrow> ('k, 'v) Node list \<Rightarrow> bool" where
  "same_pairs st st' \<longleftrightarrow>
     length st' = length st \<and>
     (\<forall>p < length st. map_pair (st' ! p) = map_pair (st ! p) \<and>
                      sequence_pos (st' ! p) = sequence_pos (st ! p))"

subsection \<open>The container as the specification describes it\<close>

text \<open>
  The specification describes the container by its order sequence and its capacity: a new
  entry becomes the head of the order sequence, an insert of a present key changes
  nothing, an erase removes the entry of the key, the indexing operator inserts a default
  value for an absent key, a write through a position changes the value of the node and
  nothing else, \<^verbatim>\<open>clear\<close> empties the sequence and returns to the initial
  capacity, and after each insert or erase that changes the size the resize policy
  chooses the capacity. \<open>spec_op\<close> is this description as a function on pairs of an entry
  list and a capacity; \<open>view\<close> reads such a pair off a state of the code.
\<close>

definition set_value :: "'k \<Rightarrow> 'v \<Rightarrow> ('k \<times> 'v) list \<Rightarrow> ('k \<times> 'v) list" where
  "set_value k v es = map (\<lambda>e. if fst e = k then (k, v) else e) es"

fun spec_op :: "'v \<Rightarrow> ('k \<times> 'v) list \<times> nat \<Rightarrow> ('k, 'v) op \<Rightarrow> ('k \<times> 'v) list \<times> nat" where
  "spec_op d (es, c) (Insert k v) =
     (if k \<in> fst ` set es then (es, c) else ((k, v) # es, cap_after (length es + 1) c))"
| "spec_op d (es, c) (Index k) =
     (if k \<in> fst ` set es then (es, c) else ((k, d) # es, cap_after (length es + 1) c))"
| "spec_op d (es, c) (Assign k v) =
     (if k \<in> fst ` set es then (set_value k v es, c)
      else ((k, v) # es, cap_after (length es + 1) c))"
| "spec_op d (es, c) (IterWrite k v) =
     (if k \<in> fst ` set es then (set_value k v es, c) else (es, c))"
| "spec_op d (es, c) (Erase k) =
     (if k \<in> fst ` set es then (filter (\<lambda>e. fst e \<noteq> k) es, cap_after (length es - 1) c)
      else (es, c))"
| "spec_op d (es, c) Clear = ([], INIT_CAPACITY)"

fun spec_ops :: "'v \<Rightarrow> ('k \<times> 'v) list \<times> nat \<Rightarrow> ('k, 'v) op list \<Rightarrow> ('k \<times> 'v) list \<times> nat" where
  "spec_ops d a [] = a"
| "spec_ops d a (x # xs) = spec_ops d (spec_op d a x) xs"

definition view :: "('k, 'v) HashMap \<Rightarrow> ('k \<times> 'v) list \<times> nat" where
  "view s = (entries s, capacity s)"

text \<open>
  An operation ends the binding of a key when it erases the key, overwrites its value
  through the reference that \<^verbatim>\<open>operator[]\<close> returns or through an iterator, or erases
  every key.
\<close>

definition ends_binding :: "'k \<Rightarrow> ('k, 'v) op \<Rightarrow> bool" where
  "ends_binding k x =
     (case x of
        Insert _ _ \<Rightarrow> False
      | Index _ \<Rightarrow> False
      | Assign k' _ \<Rightarrow> k' = k
      | IterWrite k' _ \<Rightarrow> k' = k
      | Erase k' \<Rightarrow> k' = k
      | Clear \<Rightarrow> True)"

text \<open>What a client observes after a run of operations on a new container.\<close>

definition at_after :: "'v \<Rightarrow> ('k \<Rightarrow> nat) \<Rightarrow> ('k, 'v) op list \<Rightarrow> 'k \<Rightarrow> error + 'v" where
  "at_after d h ops k =
     (case apply_ops d (HashMap_init h) ops of Inl e \<Rightarrow> Inl e | Inr s \<Rightarrow> at_hm s k)"

definition observe_after ::
  "'v \<Rightarrow> ('k \<Rightarrow> nat) \<Rightarrow> ('k, 'v) op list \<Rightarrow> error + (nat \<times> nat list \<times> nat list list)" where
  \<comment> \<open>capacity, order sequence and chains after a run of operations on a new container\<close>
  "observe_after d h ops =
     (case apply_ops d (HashMap_init h) ops of
        Inl e \<Rightarrow> Inl e
      | Inr s \<Rightarrow> Inr (capacity s, nodes_sequence s, buckets s))"

section \<open>Correctness of the operations\<close>

subsection \<open>Chains and stores\<close>

lemma same_pairs_refl: "same_pairs st st"
  by (simp add: same_pairs_def)

lemma same_pairs_trans: "same_pairs a b \<Longrightarrow> same_pairs b c \<Longrightarrow> same_pairs a c"
  by (simp add: same_pairs_def)

lemma same_pairs_key: "same_pairs st st' \<Longrightarrow> p < length st \<Longrightarrow> key (st' ! p) = key (st ! p)"
  by (simp add: same_pairs_def key_def)

lemma same_pairs_bucket_update:
  "y < length st \<Longrightarrow> same_pairs st (st[y := (st ! y)\<lparr>bucket_index := i\<rparr>])"
  by (simp add: same_pairs_def nth_list_update)

lemma chain_of_update_notin:
  assumes "y \<notin> set ps"
  shows "chain_of (st[y := n]) i ps = chain_of st i ps"
proof -
  have "st[y := n] ! p = st ! p" if "p \<in> set ps" for p
  proof -
    from that assms have "y \<noteq> p" by auto
    then show ?thesis by simp
  qed
  then show ?thesis
    unfolding chain_of_def by (auto intro: filter_cong)
qed

lemma chain_of_append: "chain_of st i (xs @ ys) = chain_of st i xs @ chain_of st i ys"
  by (simp add: chain_of_def)

lemma chain_of_Cons:
  "chain_of st i (p # ps) = (if bucket_index (st ! p) = i then p # chain_of st i ps else chain_of st i ps)"
  by (simp add: chain_of_def)

lemma chain_of_Nil: "chain_of st i [] = []"
  by (simp add: chain_of_def)

lemma rehash_loop_ok:
  assumes "distinct (xs @ ys)"
    and "\<forall>p \<in> set (xs @ ys). p < length (store s)"
    and "0 < capacity s"
    and "length (buckets s) = capacity s"
    and "\<forall>i < capacity s. buckets s ! i = chain_of (store s) i ys @ chain_of (store s) i xs"
    and "\<forall>p \<in> set xs. bucket_index (store s ! p) = hasher s (key (store s ! p)) mod capacity s"
  shows "\<exists>s'. rehash_loop ys s = Inr s' \<and>
           nodes_sequence s' = nodes_sequence s \<and> capacity s' = capacity s \<and>
           sz s' = sz s \<and> hasher s' = hasher s \<and>
           same_pairs (store s) (store s') \<and>
           length (buckets s') = capacity s \<and>
           (\<forall>i < capacity s. buckets s' ! i = chain_of (store s') i (xs @ ys)) \<and>
           (\<forall>p \<in> set (xs @ ys).
              bucket_index (store s' ! p) = hasher s (key (store s ! p)) mod capacity s)"
  using assms
proof (induction ys arbitrary: xs s)
  case Nil
  then show ?case by (simp add: same_pairs_refl chain_of_Nil)
next
  case (Cons y ys)
  let ?st = "store s"
  let ?b = "bucket_index (?st ! y)"
  let ?c = "capacity s"
  let ?i = "hasher s (key (?st ! y)) mod ?c"
  have y: "y < length ?st" "y \<notin> set xs" "y \<notin> set ys"
    using Cons.prems(1,2) by auto
  have i: "?i < ?c" using Cons.prems(3) by simp
  define bs where
    "bs = (if ?b < ?c then (buckets s)[?b := chain_of ?st ?b ys @ chain_of ?st ?b xs] else buckets s)"
  have len_bs: "length bs = ?c"
    using Cons.prems(4) by (simp add: bs_def)
  have nth_bs: "bs ! j = chain_of ?st j ys @ chain_of ?st j xs" if "j < ?c" for j
  proof (cases "?b < ?c")
    case True
    then show ?thesis
      using that Cons.prems(4,5) by (cases "j = ?b") (simp_all add: bs_def chain_of_Cons)
  next
    case False
    then have "?b \<noteq> j" using that by simp
    then show ?thesis using that False Cons.prems(5) by (simp add: bs_def chain_of_Cons)
  qed
  have pop: "(if ?b < ?c
              then (case bucket_at (buckets s) ?b of
                      Inl e \<Rightarrow> Inl e
                    | Inr b \<Rightarrow> (case pop_front b of
                        Inl e \<Rightarrow> Inl e
                      | Inr b' \<Rightarrow> Inr ((buckets s)[?b := b'])))
              else Inr (buckets s)) = Inr bs"
    using Cons.prems(4,5) by (simp add: bs_def bucket_at_def pop_front_def chain_of_Cons)
  define s1 where
    "s1 = s\<lparr>store := ?st[y := (?st ! y)\<lparr>bucket_index := ?i\<rparr>], buckets := bs[?i := bs ! ?i @ [y]]\<rparr>"
  have step: "rehash_loop (y # ys) s = rehash_loop ys s1"
    using y(1) i Cons.prems(3) len_bs
    by (simp only: rehash_loop.simps pop) (simp add: get_hash_def bucket_at_def s1_def)
  have sp1: "same_pairs ?st (store s1)"
    using y(1) by (simp add: s1_def same_pairs_bucket_update)
  have keys1: "key (store s1 ! p) = key (?st ! p)" if "p < length ?st" for p
    using sp1 that by (rule same_pairs_key)
  have bidx1: "bucket_index (store s1 ! p) = (if p = y then ?i else bucket_index (?st ! p))"
    if "p < length ?st" for p
    using that y(1) by (simp add: s1_def nth_list_update)
  have pre1: "distinct ((xs @ [y]) @ ys)" using Cons.prems(1) by simp
  have pre2: "\<forall>p \<in> set ((xs @ [y]) @ ys). p < length (store s1)"
    using Cons.prems(2) by (simp add: s1_def)
  have pre3: "0 < capacity s1" using Cons.prems(3) by (simp add: s1_def)
  have pre4: "length (buckets s1) = capacity s1" using len_bs by (simp add: s1_def)
  have pre5: "\<forall>j < capacity s1.
      buckets s1 ! j = chain_of (store s1) j ys @ chain_of (store s1) j (xs @ [y])"
  proof (intro allI impI)
    fix j assume "j < capacity s1"
    then have j: "j < ?c" by (simp add: s1_def)
    have c1: "chain_of (store s1) j ys = chain_of ?st j ys"
      using y(3) by (simp add: s1_def chain_of_update_notin)
    have c2: "chain_of (store s1) j xs = chain_of ?st j xs"
      using y(2) by (simp add: s1_def chain_of_update_notin)
    have c3: "chain_of (store s1) j [y] = (if j = ?i then [y] else [])"
      using bidx1[OF y(1)] by (auto simp: chain_of_Cons chain_of_Nil)
    show "buckets s1 ! j = chain_of (store s1) j ys @ chain_of (store s1) j (xs @ [y])"
      using j i len_bs nth_bs[OF j] nth_bs[OF i]
      by (simp add: chain_of_append c1 c2 c3) (simp add: s1_def nth_list_update)
  qed
  have pre6: "\<forall>p \<in> set (xs @ [y]).
      bucket_index (store s1 ! p) = hasher s1 (key (store s1 ! p)) mod capacity s1"
  proof
    fix p assume p: "p \<in> set (xs @ [y])"
    then have pl: "p < length ?st" using Cons.prems(2) by auto
    have h1: "hasher s1 = hasher s" "capacity s1 = ?c" by (simp_all add: s1_def)
    show "bucket_index (store s1 ! p) = hasher s1 (key (store s1 ! p)) mod capacity s1"
      using p Cons.prems(6) y(2) by (auto simp: bidx1[OF pl] keys1[OF pl] h1)
  qed
  from Cons.IH[OF pre1 pre2 pre3 pre4 pre5 pre6]
  obtain s' where s': "rehash_loop ys s1 = Inr s'"
    "nodes_sequence s' = nodes_sequence s1" "capacity s' = capacity s1"
    "sz s' = sz s1" "hasher s' = hasher s1"
    "same_pairs (store s1) (store s')"
    "length (buckets s') = capacity s1"
    "\<forall>i < capacity s1. buckets s' ! i = chain_of (store s') i ((xs @ [y]) @ ys)"
    "\<forall>p \<in> set ((xs @ [y]) @ ys).
        bucket_index (store s' ! p) = hasher s1 (key (store s1 ! p)) mod capacity s1"
    by blast
  have eqs: "nodes_sequence s1 = nodes_sequence s" "capacity s1 = ?c" "sz s1 = sz s"
    "hasher s1 = hasher s"
    by (simp_all add: s1_def)
  have last: "\<forall>p \<in> set (xs @ y # ys).
      bucket_index (store s' ! p) = hasher s (key (?st ! p)) mod ?c"
  proof
    fix p assume p: "p \<in> set (xs @ y # ys)"
    then have pl: "p < length ?st" using Cons.prems(2) by auto
    from p have "p \<in> set ((xs @ [y]) @ ys)" by simp
    with s'(9) have "bucket_index (store s' ! p) = hasher s1 (key (store s1 ! p)) mod capacity s1"
      by blast
    then show "bucket_index (store s' ! p) = hasher s (key (?st ! p)) mod ?c"
      by (simp add: eqs keys1[OF pl])
  qed
  have run: "rehash_loop (y # ys) s = Inr s'"
    using step s'(1) by (simp only:)
  have chains: "\<forall>i < ?c. buckets s' ! i = chain_of (store s') i (xs @ y # ys)"
    using s'(8) by (simp add: eqs)
  show ?case
    using run s'(2-5,7) chains last same_pairs_trans[OF sp1 s'(6)]
    by (intro exI[of _ s']) (simp add: eqs del: rehash_loop.simps)
qed

subsection \<open>rehash and check_load_factor keep the chains aligned\<close>

lemma vector_resize_length: "length (vector_resize n bs) = n"
  by (simp add: vector_resize_def)

lemma vector_resize_nth:
  "i < n \<Longrightarrow> vector_resize n bs ! i = (if i < length bs then bs ! i else [])"
  by (simp add: vector_resize_def nth_append)

lemma chain_of_empty:
  "\<forall>p \<in> set ps. bucket_index (st ! p) \<noteq> i \<Longrightarrow> chain_of st i ps = []"
  by (simp add: chain_of_def)

lemma same_pairs_map_key:
  assumes "same_pairs st st'" and "\<forall>p \<in> set ps. p < length st"
  shows "map (\<lambda>p. key (st' ! p)) ps = map (\<lambda>p. key (st ! p)) ps"
  using assms by (simp add: same_pairs_key)

lemma same_pairs_map_pair:
  assumes "same_pairs st st'" and "\<forall>p \<in> set ps. p < length st"
  shows "map (\<lambda>p. map_pair (st' ! p)) ps = map (\<lambda>p. map_pair (st ! p)) ps"
  using assms by (simp add: same_pairs_def)

lemma rehash_ok:
  assumes ok: "chains_ok s" and c: "0 < c"
  shows "\<exists>s'. rehash (s\<lparr>capacity := c\<rparr>) = Inr s' \<and> chains_ok s' \<and> capacity s' = c \<and>
           nodes_sequence s' = nodes_sequence s \<and> sz s' = sz s \<and> hasher s' = hasher s \<and>
           same_pairs (store s) (store s')"
proof -
  let ?seq = "nodes_sequence s"
  define s0 where "s0 = s\<lparr>capacity := c, buckets := vector_resize c (buckets s)\<rparr>"
  have r: "rehash (s\<lparr>capacity := c\<rparr>) = rehash_loop ?seq s0"
    by (simp add: rehash_def s0_def)
  from ok have dist: "distinct ?seq"
    and dkeys: "distinct (map (\<lambda>p. key (store s ! p)) ?seq)"
    and nodes: "\<forall>p \<in> set ?seq. p < length (store s) \<and> sequence_pos (store s ! p) = Cell p \<and>
                  bucket_index (store s ! p) = hasher s (key (store s ! p)) mod capacity s"
    and chains: "\<forall>i < capacity s. buckets s ! i = chain_of (store s) i ?seq"
    and len: "length (buckets s) = capacity s" and cap: "0 < capacity s"
    by (simp_all add: chains_ok_def)
  have small: "\<forall>p \<in> set ?seq. bucket_index (store s ! p) < capacity s"
    using nodes cap by simp
  have p1: "distinct ([] @ ?seq)" using dist by simp
  have p2: "\<forall>p \<in> set ([] @ ?seq). p < length (store s0)" using nodes by (simp add: s0_def)
  have p3: "0 < capacity s0" using c by (simp add: s0_def)
  have p4: "length (buckets s0) = capacity s0" by (simp add: s0_def vector_resize_length)
  have p5: "\<forall>i < capacity s0. buckets s0 ! i = chain_of (store s0) i ?seq @ chain_of (store s0) i []"
  proof (intro allI impI)
    fix i assume "i < capacity s0"
    then have i: "i < c" by (simp add: s0_def)
    show "buckets s0 ! i = chain_of (store s0) i ?seq @ chain_of (store s0) i []"
    proof (cases "i < capacity s")
      case True
      then show ?thesis using i chains len by (simp add: s0_def vector_resize_nth chain_of_Nil)
    next
      case False
      then have "\<forall>p \<in> set ?seq. bucket_index (store s ! p) \<noteq> i" using small by auto
      then have "chain_of (store s) i ?seq = []" by (rule chain_of_empty)
      then show ?thesis using i False len by (simp add: s0_def vector_resize_nth chain_of_Nil)
    qed
  qed
  have p6: "\<forall>p \<in> set []. bucket_index (store s0 ! p) = hasher s0 (key (store s0 ! p)) mod capacity s0"
    by simp
  from rehash_loop_ok[OF p1 p2 p3 p4 p5 p6]
  obtain s' where s': "rehash_loop ?seq s0 = Inr s'"
    "nodes_sequence s' = nodes_sequence s0" "capacity s' = capacity s0"
    "sz s' = sz s0" "hasher s' = hasher s0"
    "same_pairs (store s0) (store s')"
    "length (buckets s') = capacity s0"
    "\<forall>i < capacity s0. buckets s' ! i = chain_of (store s') i ([] @ ?seq)"
    "\<forall>p \<in> set ([] @ ?seq).
        bucket_index (store s' ! p) = hasher s0 (key (store s0 ! p)) mod capacity s0"
    by blast
  have e0: "nodes_sequence s0 = ?seq" "capacity s0 = c" "sz s0 = sz s" "hasher s0 = hasher s"
    "store s0 = store s"
    by (simp_all add: s0_def)
  have sp: "same_pairs (store s) (store s')" using s'(6) by (simp add: e0)
  have lt: "\<forall>p \<in> set ?seq. p < length (store s)" using nodes by simp
  have k: "map (\<lambda>p. key (store s' ! p)) ?seq = map (\<lambda>p. key (store s ! p)) ?seq"
    using sp lt by (rule same_pairs_map_key)
  have n': "\<forall>p \<in> set ?seq. p < length (store s') \<and> sequence_pos (store s' ! p) = Cell p \<and>
               bucket_index (store s' ! p) = hasher s (key (store s' ! p)) mod c"
  proof
    fix p assume p: "p \<in> set ?seq"
    then have pl: "p < length (store s)" using nodes by simp
    have "bucket_index (store s' ! p) = hasher s (key (store s ! p)) mod c"
      using s'(9) p by (simp add: e0)
    then show "p < length (store s') \<and> sequence_pos (store s' ! p) = Cell p \<and>
               bucket_index (store s' ! p) = hasher s (key (store s' ! p)) mod c"
      using sp pl nodes p same_pairs_key[OF sp pl] by (simp add: same_pairs_def)
  qed
  have "chains_ok s'"
    unfolding chains_ok_def using s'(2,3,5,7,8) c dist dkeys n' by (simp add: e0 k)
  then show ?thesis
    using s'(1-5) sp by (simp add: r e0)
qed

lemma cap_after_pos: "0 < c \<Longrightarrow> 0 < cap_after n c"
  by (auto simp: cap_after_def INIT_CAPACITY_def)

lemma check_load_factor_ok:
  assumes ok: "chains_ok s"
  shows "\<exists>s'. check_load_factor s = Inr s' \<and> chains_ok s' \<and>
           capacity s' = cap_after (sz s) (capacity s) \<and>
           nodes_sequence s' = nodes_sequence s \<and> sz s' = sz s \<and> hasher s' = hasher s \<and>
           same_pairs (store s) (store s')"
proof -
  let ?c = "cap_after (sz s) (capacity s)"
  from ok have "0 < capacity s" by (simp add: chains_ok_def)
  then have pos: "0 < ?c" by (rule cap_after_pos)
  show ?thesis
  proof (cases "?c = capacity s")
    case True
    then have "check_load_factor s = Inr s"
      using \<open>0 < capacity s\<close>
      by (auto simp: check_load_factor_def cap_after_def Let_def split: if_splits)
    then show ?thesis using ok True by (simp add: same_pairs_refl)
  next
    case False
    then have "check_load_factor s = rehash (s\<lparr>capacity := ?c\<rparr>)"
      by (auto simp: check_load_factor_def cap_after_def Let_def split: if_splits)
    then show ?thesis using rehash_ok[OF ok pos] by simp
  qed
qed

subsection \<open>find, at and insertion\<close>

lemma find_loop_absent:
  "\<forall>p \<in> set ps. p < length (store s) \<and> key (store s ! p) \<noteq> k \<Longrightarrow>
   find_loop s k ps = Inr PastEnd"
  by (induction ps) (simp_all add: end_hm_def)

lemma find_loop_present:
  assumes "\<forall>p \<in> set ps. p < length (store s)"
    and "q \<in> set ps" and "key (store s ! q) = k"
    and "\<forall>p \<in> set ps. key (store s ! p) = k \<longrightarrow> p = q"
  shows "find_loop s k ps = Inr (sequence_pos (store s ! q))"
  using assms
proof (induction ps)
  case Nil
  then show ?case by simp
next
  case (Cons a ps)
  have a: "a < length (store s)" using Cons.prems(1) by simp
  show ?case
  proof (cases "key (store s ! a) = k")
    case True
    then have "a = q" using Cons.prems(4) by simp
    then show ?thesis using True a by simp
  next
    case False
    then have "q \<in> set ps" using Cons.prems(2,3) by auto
    moreover have "\<forall>p \<in> set ps. p < length (store s)" using Cons.prems(1) by simp
    moreover have "\<forall>p \<in> set ps. key (store s ! p) = k \<longrightarrow> p = q"
      using Cons.prems(4) by simp
    ultimately have "find_loop s k ps = Inr (sequence_pos (store s ! q))"
      using Cons.IH Cons.prems(3) by blast
    then show ?thesis using False a by simp
  qed
qed

lemma chains_ok_key_inj:
  assumes "chains_ok s" and "p \<in> set (nodes_sequence s)" and "q \<in> set (nodes_sequence s)"
    and "key (store s ! p) = key (store s ! q)"
  shows "p = q"
proof -
  from assms(1) have "inj_on (\<lambda>p. key (store s ! p)) (set (nodes_sequence s))"
    by (simp add: chains_ok_def distinct_map)
  then show ?thesis using assms(2-4) by (auto dest: inj_onD)
qed

lemma chains_ok_bucket:
  assumes "chains_ok s"
  shows "bucket_at (buckets s) (hasher s k mod capacity s) =
           Inr (chain_of (store s) (hasher s k mod capacity s) (nodes_sequence s))"
  using assms by (simp add: chains_ok_def bucket_at_def)

lemma keys_entries: "fst ` set (entries s) = (\<lambda>p. key (store s ! p)) ` set (nodes_sequence s)"
  by (auto simp: entries_def key_def image_iff)

lemma find_hm_absent:
  assumes ok: "chains_ok s" and k: "k \<notin> fst ` set (entries s)"
  shows "find_hm s k = Inr PastEnd"
proof -
  have "\<forall>p \<in> set (chain_of (store s) (hasher s k mod capacity s) (nodes_sequence s)).
          p < length (store s) \<and> key (store s ! p) \<noteq> k"
    using ok k by (auto simp: chain_of_def chains_ok_def keys_entries)
  then show ?thesis
    using ok chains_ok_bucket[OF ok, of k]
    by (simp add: find_hm_def get_hash_def chains_ok_def find_loop_absent)
qed

lemma find_hm_present:
  assumes ok: "chains_ok s" and q: "q \<in> set (nodes_sequence s)" and k: "key (store s ! q) = k"
  shows "find_hm s k = Inr (Cell q)"
proof -
  let ?b = "chain_of (store s) (hasher s k mod capacity s) (nodes_sequence s)"
  have 1: "\<forall>p \<in> set ?b. p < length (store s)"
    using ok by (auto simp: chain_of_def chains_ok_def)
  have 2: "q \<in> set ?b" using ok q k by (auto simp: chain_of_def chains_ok_def)
  have 3: "\<forall>p \<in> set ?b. key (store s ! p) = k \<longrightarrow> p = q"
    using chains_ok_key_inj[OF ok _ q] k by (auto simp: chain_of_def)
  have "sequence_pos (store s ! q) = Cell q" using ok q by (simp add: chains_ok_def)
  then show ?thesis
    using ok chains_ok_bucket[OF ok, of k] find_loop_present[OF 1 2 k 3]
    by (simp add: find_hm_def get_hash_def chains_ok_def)
qed

lemma find_hm_cases:
  assumes ok: "chains_ok s"
  shows "(k \<notin> fst ` set (entries s) \<and> find_hm s k = Inr PastEnd) \<or>
         (\<exists>q \<in> set (nodes_sequence s). key (store s ! q) = k \<and> find_hm s k = Inr (Cell q))"
proof (cases "k \<in> fst ` set (entries s)")
  case True
  then obtain q where "q \<in> set (nodes_sequence s)" "key (store s ! q) = k"
    by (auto simp: keys_entries)
  then show ?thesis using find_hm_present[OF ok] by blast
next
  case False
  then show ?thesis using find_hm_absent[OF ok] by simp
qed

lemma map_of_entries:
  assumes ok: "chains_ok s" and q: "q \<in> set (nodes_sequence s)"
  shows "map_of (entries s) (key (store s ! q)) = Some (snd (map_pair (store s ! q)))"
proof -
  have "distinct (map fst (entries s))"
    using ok by (simp add: chains_ok_def entries_def key_def comp_def)
  moreover have "(key (store s ! q), snd (map_pair (store s ! q))) \<in> set (entries s)"
    using q by (auto simp: entries_def key_def image_iff)
  ultimately show ?thesis by simp
qed

lemma at_hm_ok:
  assumes ok: "chains_ok s"
  shows "at_hm s k = (case map_of (entries s) k of None \<Rightarrow> Inl OutOfRange | Some v \<Rightarrow> Inr v)"
proof -
  from find_hm_cases[OF ok, of k] show ?thesis
  proof
    assume a: "k \<notin> fst ` set (entries s) \<and> find_hm s k = Inr PastEnd"
    then have "map_of (entries s) k = None" by (simp add: map_of_eq_None_iff)
    then show ?thesis using a by (simp add: at_hm_def end_hm_def)
  next
    assume "\<exists>q \<in> set (nodes_sequence s). key (store s ! q) = k \<and> find_hm s k = Inr (Cell q)"
    then obtain q where q: "q \<in> set (nodes_sequence s)" "key (store s ! q) = k"
      "find_hm s k = Inr (Cell q)" by blast
    have "q < length (store s)" using ok q(1) by (simp add: chains_ok_def)
    then show ?thesis
      using q map_of_entries[OF ok q(1)]
      by (simp add: at_hm_def end_hm_def read_ref_def deref_def)
  qed
qed

lemma chain_of_store_append:
  "\<forall>p \<in> set ps. p < length st \<Longrightarrow> chain_of (st @ ns) i ps = chain_of st i ps"
  unfolding chain_of_def by (auto intro: filter_cong simp: nth_append)

lemma cap_after_pow2:
  assumes "c = INIT_CAPACITY * 2 ^ n"
  shows "\<exists>m. cap_after k c = INIT_CAPACITY * 2 ^ m"
proof -
  have "cap_after k c = c * 2 \<or> cap_after k c = c \<or> (INIT_CAPACITY < c \<and> cap_after k c = c div 2)"
    by (simp add: cap_after_def)
  then consider "cap_after k c = c * 2" | "cap_after k c = c"
    | "INIT_CAPACITY < c" "cap_after k c = c div 2"
    by blast
  then show ?thesis
  proof cases
    case 1
    then have "cap_after k c = INIT_CAPACITY * 2 ^ Suc n" using assms by simp
    then show ?thesis by blast
  next
    case 2
    then show ?thesis using assms by blast
  next
    case 3
    then have "n \<noteq> 0" using assms by (cases n) auto
    then obtain m where "n = Suc m" by (cases n) auto
    then have "cap_after k c = INIT_CAPACITY * 2 ^ m" using 3 assms by simp
    then show ?thesis by blast
  qed
qed

lemma chains_ok_sz: "chains_ok (s\<lparr>sz := n\<rparr>) = chains_ok s"
  by (simp add: chains_ok_def)

lemma insert_node_ok:
  assumes inv: "invar s" and k: "k \<notin> fst ` set (entries s)"
  shows "\<exists>s'. insert_node s (k, v) = Inr (s', Cell (length (store s))) \<and> invar s' \<and>
           entries s' = (k, v) # entries s \<and>
           nodes_sequence s' = length (store s) # nodes_sequence s \<and>
           capacity s' = cap_after (sz s + 1) (capacity s) \<and> hasher s' = hasher s"
proof -
  from inv have ok: "chains_ok s" and size: "sz s = length (nodes_sequence s)"
    and pow: "\<exists>n. capacity s = INIT_CAPACITY * 2 ^ n"
    by (simp_all add: invar_def)
  have "chains_ok (s\<lparr>sz := sz s + 1\<rparr>)" using ok by (simp add: chains_ok_sz)
  from check_load_factor_ok[OF this]
  obtain s1 where s1: "check_load_factor (s\<lparr>sz := sz s + 1\<rparr>) = Inr s1" "chains_ok s1"
    "capacity s1 = cap_after (sz s + 1) (capacity s)"
    "nodes_sequence s1 = nodes_sequence s" "sz s1 = sz s + 1" "hasher s1 = hasher s"
    "same_pairs (store s) (store s1)"
    by auto
  let ?seq = "nodes_sequence s"
  let ?p = "length (store s1)"
  let ?i = "hasher s k mod capacity s1"
  let ?node = "\<lparr>map_pair = (k, v), sequence_pos = Cell ?p, bucket_index = ?i\<rparr>"
  define s' where "s' = s1\<lparr>store := store s1 @ [?node],
      buckets := (buckets s1)[?i := ?p # chain_of (store s1) ?i ?seq],
      nodes_sequence := ?p # ?seq\<rparr>"
  have len: "length (store s1) = length (store s)" using s1(7) by (simp add: same_pairs_def)
  have cap1: "0 < capacity s1" and blen: "length (buckets s1) = capacity s1"
    and lt: "\<forall>p \<in> set ?seq. p < length (store s1)"
    using s1(2,4) by (simp_all add: chains_ok_def)
  have lt0: "\<forall>p \<in> set ?seq. p < length (store s)" using lt len by simp
  have run: "insert_node s (k, v) = Inr (s', Cell (length (store s)))"
    using s1(1,4,6) cap1 chains_ok_bucket[OF s1(2), of k] len
    by (simp add: insert_node_def get_hash_def s'_def Let_def)
  have prj: "store s' = store s1 @ [?node]" "nodes_sequence s' = ?p # ?seq"
    "capacity s' = capacity s1" "hasher s' = hasher s" "sz s' = sz s + 1"
    "buckets s' = (buckets s1)[?i := ?p # chain_of (store s1) ?i ?seq]"
    using s1(5,6) by (simp_all add: s'_def)
  have old: "store s' ! p = store s1 ! p" if "p \<in> set ?seq" for p
    using lt that by (simp add: prj(1) nth_append)
  have new: "store s' ! ?p = ?node" by (simp add: prj(1))
  have fresh: "?p \<notin> set ?seq" using lt by auto
  have ent1: "entries s1 = entries s"
    using same_pairs_map_pair[OF s1(7) lt0] s1(4) by (simp add: entries_def)
  have ent: "entries s' = (k, v) # entries s"
  proof -
    have "map (\<lambda>p. map_pair (store s' ! p)) ?seq = map (\<lambda>p. map_pair (store s1 ! p)) ?seq"
      using old by simp
    then have "entries s' = map_pair (store s' ! ?p) # entries s1"
      by (simp add: entries_def prj(2) s1(4))
    then show ?thesis by (simp add: new ent1)
  qed
  have keys': "map (\<lambda>p. key (store s' ! p)) ?seq = map (\<lambda>p. key (store s1 ! p)) ?seq"
    using old by simp
  have knew: "k \<notin> (\<lambda>p. key (store s1 ! p)) ` set ?seq"
    using k ent1 keys_entries[of s1] by (simp add: s1(4))
  have c1: "0 < capacity s'" "length (buckets s') = capacity s'"
    using cap1 blen by (simp_all add: prj)
  have c2: "distinct (nodes_sequence s')"
    using s1(2,4) fresh by (simp add: prj(2) chains_ok_def)
  have c3: "distinct (map (\<lambda>p. key (store s' ! p)) (nodes_sequence s'))"
  proof -
    have d: "distinct (map (\<lambda>p. key (store s1 ! p)) ?seq)"
      using s1(2,4) by (simp add: chains_ok_def)
    have kk: "key (store s' ! ?p) = k" by (simp add: new key_def)
    have "distinct (key (store s' ! ?p) # map (\<lambda>p. key (store s' ! p)) ?seq)"
      unfolding kk keys' using d knew by simp
    then show ?thesis by (simp add: prj(2))
  qed
  have c4: "\<forall>p \<in> set (nodes_sequence s').
        p < length (store s') \<and> sequence_pos (store s' ! p) = Cell p \<and>
        bucket_index (store s' ! p) = hasher s' (key (store s' ! p)) mod capacity s'"
  proof
    fix p assume "p \<in> set (nodes_sequence s')"
    then consider "p = ?p" | "p \<in> set ?seq" by (auto simp: prj(2))
    then show "p < length (store s') \<and> sequence_pos (store s' ! p) = Cell p \<and>
        bucket_index (store s' ! p) = hasher s' (key (store s' ! p)) mod capacity s'"
    proof cases
      case 1
      have l: "length (store s') = Suc ?p" by (simp add: prj(1))
      show ?thesis unfolding 1 new l prj(3,4) by (simp add: key_def)
    next
      case 2
      have l: "length (store s') = Suc ?p" by (simp add: prj(1))
      have "p < length (store s1) \<and> sequence_pos (store s1 ! p) = Cell p \<and>
            bucket_index (store s1 ! p) = hasher s1 (key (store s1 ! p)) mod capacity s1"
        using 2 s1(2,4) by (simp add: chains_ok_def)
      then show ?thesis unfolding old[OF 2] l prj(3,4) s1(6) by simp
    qed
  qed
  have c5: "\<forall>j < capacity s'. buckets s' ! j = chain_of (store s') j (nodes_sequence s')"
  proof (intro allI impI)
    fix j assume "j < capacity s'"
    then have j: "j < capacity s1" by (simp add: prj(3))
    have a: "chain_of (store s') j ?seq = chain_of (store s1) j ?seq"
      using lt by (simp add: prj(1) chain_of_store_append)
    have b: "buckets s1 ! j = chain_of (store s1) j ?seq"
      using s1(2,4) j by (simp add: chains_ok_def)
    have i: "?i < length (buckets s1)" using cap1 blen by simp
    have "bucket_index (store s' ! ?p) = ?i" by (simp add: new)
    then have x: "chain_of (store s') j (?p # ?seq) =
            (if ?i = j then ?p # chain_of (store s1) j ?seq else chain_of (store s1) j ?seq)"
      by (simp only: chain_of_Cons a)
    have y: "buckets s' ! j =
            (if ?i = j then ?p # chain_of (store s1) j ?seq else chain_of (store s1) j ?seq)"
    proof (cases "?i = j")
      case True
      then show ?thesis using i by (simp add: prj(6))
    next
      case False
      then show ?thesis using b by (simp add: prj(6))
    qed
    show "buckets s' ! j = chain_of (store s') j (nodes_sequence s')"
      unfolding prj(2) x y ..
  qed
  have ok': "chains_ok s'"
    unfolding chains_ok_def using c1 c2 c3 c4 c5 by blast
  have size': "sz s' = length (nodes_sequence s')"
    using size by (simp add: prj)
  have cap': "capacity s' = cap_after (sz s + 1) (capacity s)" using s1(3) by (simp add: prj)
  from pow obtain n where "capacity s = INIT_CAPACITY * 2 ^ n" by blast
  from cap_after_pow2[OF this, of "sz s + 1"]
  have pow': "\<exists>m. capacity s' = INIT_CAPACITY * 2 ^ m" using cap' by simp
  have "invar s'" using ok' size' pow' by (simp add: invar_def)
  moreover have "nodes_sequence s' = length (store s) # ?seq" by (simp add: prj len)
  moreover have "hasher s' = hasher s" by (simp add: prj)
  ultimately show ?thesis using run ent cap' by blast
qed

subsection \<open>insert, erase and clear\<close>

lemma insert_hm_present:
  assumes inv: "invar s" and k: "k \<in> fst ` set (entries s)"
  shows "insert_hm s (k, v) = Inr s"
proof -
  from inv have ok: "chains_ok s" by (simp add: invar_def)
  from find_hm_cases[OF ok, of k] k
  obtain q where "find_hm s k = Inr (Cell q)" by blast
  then show ?thesis by (simp add: insert_hm_def end_hm_def)
qed

lemma insert_hm_absent:
  assumes inv: "invar s" and k: "k \<notin> fst ` set (entries s)"
  shows "\<exists>s'. insert_hm s (k, v) = Inr s' \<and> invar s' \<and> entries s' = (k, v) # entries s \<and>
           capacity s' = cap_after (sz s + 1) (capacity s) \<and> hasher s' = hasher s"
proof -
  from inv have ok: "chains_ok s" by (simp add: invar_def)
  have f: "find_hm s k = Inr PastEnd" using find_hm_absent[OF ok k] .
  from insert_node_ok[OF inv k, of v]
  obtain s' where s': "insert_node s (k, v) = Inr (s', Cell (length (store s)))" "invar s'"
    "entries s' = (k, v) # entries s" "capacity s' = cap_after (sz s + 1) (capacity s)"
    "hasher s' = hasher s"
    by blast
  have "insert_hm s (k, v) = Inr s'" using f s'(1) by (simp add: insert_hm_def end_hm_def)
  then show ?thesis using s'(2-5) by blast
qed

lemma erase_loop_absent:
  "\<forall>p \<in> set ps. p < length (store s) \<and> key (store s ! p) \<noteq> k \<Longrightarrow>
   erase_loop s k front ps = Inr None"
  by (induction ps arbitrary: front) simp_all

lemma erase_loop_present:
  assumes "\<forall>p \<in> set ps. p < length (store s)"
    and "q \<in> set ps" and "key (store s ! q) = k"
    and "\<forall>p \<in> set ps. key (store s ! p) = k \<longrightarrow> p = q"
  shows "erase_loop s k front ps = Inr (Some (q, front @ remove1 q ps))"
  using assms
proof (induction ps arbitrary: front)
  case Nil
  then show ?case by simp
next
  case (Cons a ps)
  have a: "a < length (store s)" using Cons.prems(1) by simp
  show ?case
  proof (cases "key (store s ! a) = k")
    case True
    then have "a = q" using Cons.prems(4) by simp
    then show ?thesis using True a by simp
  next
    case False
    then have aq: "a \<noteq> q" using Cons.prems(3) by auto
    then have "q \<in> set ps" using Cons.prems(2) by auto
    moreover have "\<forall>p \<in> set ps. p < length (store s)" using Cons.prems(1) by simp
    moreover have "\<forall>p \<in> set ps. key (store s ! p) = k \<longrightarrow> p = q"
      using Cons.prems(4) by simp
    ultimately have "erase_loop s k (front @ [a]) ps = Inr (Some (q, (front @ [a]) @ remove1 q ps))"
      using Cons.IH Cons.prems(3) by blast
    then show ?thesis using False a aq by simp
  qed
qed

lemma chain_of_remove1: "chain_of st i (remove1 q ps) = remove1 q (chain_of st i ps)"
  by (simp add: chain_of_def filter_remove1)

lemma chain_of_subset: "set (chain_of st i ps) \<subseteq> set ps"
  by (auto simp: chain_of_def)

lemma clear_loop_ok:
  assumes "\<forall>i < length bs. bs ! i = chain_of (store s) i ys"
    and "\<forall>p \<in> set ys. p < length (store s) \<and> bucket_index (store s ! p) < length bs"
  shows "clear_loop s ys bs = Inr (replicate (length bs) [])"
  using assms
proof (induction ys arbitrary: bs)
  case Nil
  have "bs = replicate (length bs) []"
    using Nil.prems(1) by (intro nth_equalityI) (simp_all add: chain_of_Nil)
  then show ?case by simp
next
  case (Cons y ys)
  let ?b = "bucket_index (store s ! y)"
  have y: "y < length (store s)" "?b < length bs" using Cons.prems(2) by simp_all
  have b: "bs ! ?b = y # chain_of (store s) ?b ys"
    using Cons.prems(1) y(2) by (simp add: chain_of_Cons)
  let ?bs = "bs[?b := chain_of (store s) ?b ys]"
  have step: "clear_loop s (y # ys) bs = clear_loop s ys ?bs"
    using y b by (simp add: bucket_at_def pop_front_def)
  have 1: "\<forall>i < length ?bs. ?bs ! i = chain_of (store s) i ys"
  proof (intro allI impI)
    fix i assume "i < length ?bs"
    then have i: "i < length bs" by simp
    show "?bs ! i = chain_of (store s) i ys"
    proof (cases "i = ?b")
      case True
      then show ?thesis using i by simp
    next
      case False
      then show ?thesis using i Cons.prems(1) by (simp add: chain_of_Cons)
    qed
  qed
  have 2: "\<forall>p \<in> set ys. p < length (store s) \<and> bucket_index (store s ! p) < length ?bs"
    using Cons.prems(2) by simp
  from Cons.IH[OF 1 2] show ?case by (simp only: step) simp
qed

lemma erase_absent:
  assumes inv: "invar s" and k: "k \<notin> fst ` set (entries s)"
  shows "erase s k = Inr s"
proof -
  from inv have ok: "chains_ok s" by (simp add: invar_def)
  have "\<forall>p \<in> set (chain_of (store s) (hasher s k mod capacity s) (nodes_sequence s)).
          p < length (store s) \<and> key (store s ! p) \<noteq> k"
    using ok k by (auto simp: chain_of_def chains_ok_def keys_entries)
  then have "erase_loop s k [] (chain_of (store s) (hasher s k mod capacity s) (nodes_sequence s))
              = Inr None"
    by (rule erase_loop_absent)
  then show ?thesis
    using ok chains_ok_bucket[OF ok, of k]
    by (simp add: erase_def get_hash_def chains_ok_def)
qed

lemma entries_remove1:
  assumes ok: "chains_ok s" and q: "q \<in> set (nodes_sequence s)"
  shows "map (\<lambda>p. map_pair (store s ! p)) (remove1 q (nodes_sequence s)) =
         filter (\<lambda>e. fst e \<noteq> key (store s ! q)) (entries s)"
proof -
  let ?seq = "nodes_sequence s"
  have d: "distinct ?seq" using ok by (simp add: chains_ok_def)
  have "remove1 q ?seq = filter (\<lambda>p. p \<noteq> q) ?seq"
    using d by (simp add: distinct_remove1_removeAll removeAll_filter_not_eq) metis
  also have "\<dots> = filter (\<lambda>p. key (store s ! p) \<noteq> key (store s ! q)) ?seq"
    using chains_ok_key_inj[OF ok _ q] by (intro filter_cong) auto
  finally show ?thesis
    by (simp add: entries_def filter_map comp_def key_def)
qed

lemma erase_present:
  assumes inv: "invar s" and k: "k \<in> fst ` set (entries s)"
  shows "\<exists>s'. erase s k = Inr s' \<and> invar s' \<and>
           entries s' = filter (\<lambda>e. fst e \<noteq> k) (entries s) \<and>
           capacity s' = cap_after (sz s - 1) (capacity s) \<and> hasher s' = hasher s"
proof -
  from inv have ok: "chains_ok s" and size: "sz s = length (nodes_sequence s)"
    and pow: "\<exists>n. capacity s = INIT_CAPACITY * 2 ^ n"
    by (simp_all add: invar_def)
  let ?seq = "nodes_sequence s"
  let ?st = "store s"
  let ?i = "hasher s k mod capacity s"
  let ?b = "chain_of ?st ?i ?seq"
  from k obtain q where q: "q \<in> set ?seq" "key (?st ! q) = k"
    by (auto simp: keys_entries)
  from ok have dist: "distinct ?seq"
    and dkeys: "distinct (map (\<lambda>p. key (?st ! p)) ?seq)"
    and nodes: "\<forall>p \<in> set ?seq. p < length ?st \<and> sequence_pos (?st ! p) = Cell p \<and>
                  bucket_index (?st ! p) = hasher s (key (?st ! p)) mod capacity s"
    and chains: "\<forall>i < capacity s. buckets s ! i = chain_of ?st i ?seq"
    and len: "length (buckets s) = capacity s" and cap: "0 < capacity s"
    by (simp_all add: chains_ok_def)
  have qb: "bucket_index (?st ! q) = ?i" using nodes q by simp
  have 1: "\<forall>p \<in> set ?b. p < length ?st" using nodes chain_of_subset[of ?st ?i ?seq] by auto
  have 2: "q \<in> set ?b" using q(1) qb by (simp add: chain_of_def)
  have 3: "\<forall>p \<in> set ?b. key (?st ! p) = k \<longrightarrow> p = q"
    using chains_ok_key_inj[OF ok _ q(1)] q(2) chain_of_subset[of ?st ?i ?seq] by auto
  have loop: "erase_loop s k [] ?b = Inr (Some (q, remove1 q ?b))"
    using erase_loop_present[OF 1 2 q(2) 3, of "[]"] by simp
  have pos: "sequence_pos (?st ! q) = Cell q" using nodes q(1) by simp
  have szpos: "sz s \<noteq> 0" using size q(1) by auto
  define s2 where "s2 = s\<lparr>nodes_sequence := remove1 q ?seq,
      buckets := (buckets s)[?i := remove1 q ?b], sz := sz s - 1\<rparr>"
  have run: "erase s k = check_load_factor s2"
    using cap chains_ok_bucket[OF ok, of k] loop pos q(1) szpos
    by (simp add: erase_def get_hash_def list_erase_def s2_def)
  have prj: "store s2 = ?st" "nodes_sequence s2 = remove1 q ?seq" "capacity s2 = capacity s"
    "hasher s2 = hasher s" "sz s2 = sz s - 1" "buckets s2 = (buckets s)[?i := remove1 q ?b]"
    by (simp_all add: s2_def)
  have sub: "set (remove1 q ?seq) \<subseteq> set ?seq" by (rule set_remove1_subset)
  have c3: "distinct (map (\<lambda>p. key (?st ! p)) (remove1 q ?seq))"
  proof -
    have "inj_on (\<lambda>p. key (?st ! p)) (set ?seq)" using dkeys by (simp add: distinct_map)
    then have "inj_on (\<lambda>p. key (?st ! p)) (set (remove1 q ?seq))"
      using sub by (rule inj_on_subset)
    then show ?thesis using dist by (simp add: distinct_map)
  qed
  have c5: "\<forall>j < capacity s. (buckets s)[?i := remove1 q ?b] ! j = chain_of ?st j (remove1 q ?seq)"
  proof (intro allI impI)
    fix j assume j: "j < capacity s"
    show "(buckets s)[?i := remove1 q ?b] ! j = chain_of ?st j (remove1 q ?seq)"
    proof (cases "j = ?i")
      case True
      then show ?thesis using j len by (simp add: chain_of_remove1)
    next
      case False
      then have "q \<notin> set (chain_of ?st j ?seq)" using qb by (auto simp: chain_of_def)
      then have "chain_of ?st j (remove1 q ?seq) = chain_of ?st j ?seq"
        by (simp add: chain_of_remove1 remove1_idem)
      then show ?thesis using False j chains by simp
    qed
  qed
  have ok2: "chains_ok s2"
    unfolding chains_ok_def prj
    using cap len dist c3 c5 nodes sub by auto
  from check_load_factor_ok[OF ok2]
  obtain s' where s': "check_load_factor s2 = Inr s'" "chains_ok s'"
    "capacity s' = cap_after (sz s2) (capacity s2)"
    "nodes_sequence s' = nodes_sequence s2" "sz s' = sz s2" "hasher s' = hasher s2"
    "same_pairs (store s2) (store s')"
    by auto
  have lt: "\<forall>p \<in> set (remove1 q ?seq). p < length ?st" using nodes sub by auto
  have "entries s' = map (\<lambda>p. map_pair (?st ! p)) (remove1 q ?seq)"
    using same_pairs_map_pair[OF s'(7)[unfolded prj] lt] by (simp add: entries_def s'(4) prj)
  then have ent: "entries s' = filter (\<lambda>e. fst e \<noteq> k) (entries s)"
    using entries_remove1[OF ok q(1)] q(2) by simp
  have size': "sz s' = length (nodes_sequence s')"
    using size q(1) by (simp add: s'(4,5) prj length_remove1)
  have cap': "capacity s' = cap_after (sz s - 1) (capacity s)" using s'(3) by (simp add: prj)
  from pow obtain n where "capacity s = INIT_CAPACITY * 2 ^ n" by blast
  from cap_after_pow2[OF this, of "sz s - 1"]
  have pow': "\<exists>m. capacity s' = INIT_CAPACITY * 2 ^ m" using cap' by simp
  have "invar s'" using s'(2) size' pow' by (simp add: invar_def)
  moreover have "hasher s' = hasher s" using s'(6) by (simp add: prj)
  ultimately show ?thesis using run s'(1) ent cap' by simp
qed

lemma clear_ok:
  assumes inv: "invar s"
  shows "clear s = Inr (s\<lparr>buckets := replicate INIT_CAPACITY [], nodes_sequence := [],
                          capacity := INIT_CAPACITY, sz := 0\<rparr>)"
proof -
  from inv have ok: "chains_ok s" and pow: "\<exists>n. capacity s = INIT_CAPACITY * 2 ^ n"
    by (simp_all add: invar_def)
  from ok have nodes: "\<forall>p \<in> set (nodes_sequence s). p < length (store s) \<and>
                  bucket_index (store s ! p) = hasher s (key (store s ! p)) mod capacity s"
    and chains: "\<forall>i < capacity s. buckets s ! i = chain_of (store s) i (nodes_sequence s)"
    and len: "length (buckets s) = capacity s" and cap: "0 < capacity s"
    by (simp_all add: chains_ok_def)
  have 1: "\<forall>i < length (buckets s). buckets s ! i = chain_of (store s) i (nodes_sequence s)"
    using chains len by simp
  have 2: "\<forall>p \<in> set (nodes_sequence s).
      p < length (store s) \<and> bucket_index (store s ! p) < length (buckets s)"
    using nodes len cap by simp
  have loop: "clear_loop s (nodes_sequence s) (buckets s) = Inr (replicate (capacity s) [])"
    using clear_loop_ok[OF 1 2] len by simp
  from pow obtain n where "capacity s = INIT_CAPACITY * 2 ^ n" by blast
  then have "INIT_CAPACITY \<le> capacity s" by simp
  then have "vector_resize INIT_CAPACITY (replicate (capacity s) []) = replicate INIT_CAPACITY []"
    by (simp add: vector_resize_def min_def)
  then show ?thesis using loop by (simp add: clear_def resize_def)
qed

lemma invar_cleared:
  "invar (s\<lparr>buckets := replicate INIT_CAPACITY [], nodes_sequence := [],
            capacity := INIT_CAPACITY, sz := 0\<rparr>)"
proof -
  have "INIT_CAPACITY = INIT_CAPACITY * 2 ^ 0" by simp
  then have "\<exists>n. INIT_CAPACITY = INIT_CAPACITY * 2 ^ n" by (rule exI)
  then show ?thesis
    by (simp add: invar_def chains_ok_def chain_of_Nil) (simp add: INIT_CAPACITY_def)
qed

lemma invar_init: "invar (HashMap_init h)"
proof -
  have "INIT_CAPACITY = INIT_CAPACITY * 2 ^ 0" by simp
  then have "\<exists>n. INIT_CAPACITY = INIT_CAPACITY * 2 ^ n" by (rule exI)
  then show ?thesis
    by (simp add: invar_def chains_ok_def chain_of_Nil HashMap_init_def) (simp add: INIT_CAPACITY_def)
qed

subsection \<open>operator[] and sequences of operations\<close>

lemma invar_lt:
  "invar s \<Longrightarrow> p \<in> set (nodes_sequence s) \<Longrightarrow> p < length (store s)"
  by (simp add: invar_def chains_ok_def)

lemma invar_size: "invar s \<Longrightarrow> sz s = length (entries s)"
  by (simp add: invar_def entries_def)

lemma index_op_present:
  assumes inv: "invar s" and k: "k \<in> fst ` set (entries s)"
  shows "\<exists>q \<in> set (nodes_sequence s). key (store s ! q) = k \<and> index_op d s k = Inr (s, Cell q)"
proof -
  from inv have ok: "chains_ok s" by (simp add: invar_def)
  from find_hm_cases[OF ok, of k] k
  obtain q where q: "q \<in> set (nodes_sequence s)" "key (store s ! q) = k"
    "find_hm s k = Inr (Cell q)" by blast
  have "index_op d s k = Inr (s, Cell q)"
    using q(1,3) invar_lt[OF inv q(1)] by (simp add: index_op_def end_hm_def deref_def)
  then show ?thesis using q(1,2) by blast
qed

lemma index_op_absent:
  assumes inv: "invar s" and k: "k \<notin> fst ` set (entries s)"
  shows "\<exists>s'. index_op d s k = Inr (s', Cell (length (store s))) \<and> invar s' \<and>
           entries s' = (k, d) # entries s \<and>
           nodes_sequence s' = length (store s) # nodes_sequence s \<and>
           capacity s' = cap_after (sz s + 1) (capacity s) \<and> hasher s' = hasher s"
proof -
  from inv have ok: "chains_ok s" by (simp add: invar_def)
  have f: "find_hm s k = Inr PastEnd" using find_hm_absent[OF ok k] .
  from insert_node_ok[OF inv k, of d]
  obtain s' where s': "insert_node s (k, d) = Inr (s', Cell (length (store s)))" "invar s'"
    "entries s' = (k, d) # entries s" "nodes_sequence s' = length (store s) # nodes_sequence s"
    "capacity s' = cap_after (sz s + 1) (capacity s)" "hasher s' = hasher s"
    by blast
  have "length (store s) \<in> set (nodes_sequence s')" using s'(4) by simp
  then have "length (store s) < length (store s')" using invar_lt[OF s'(2)] by blast
  then have "index_op d s k = Inr (s', Cell (length (store s)))"
    using f s'(1,4) by (simp add: index_op_def end_hm_def deref_def)
  then show ?thesis using s'(2-6) by blast
qed

lemma write_ref_ok:
  assumes inv: "invar s" and q: "q \<in> set (nodes_sequence s)"
  shows "\<exists>s'. write_ref s (Cell q) v = Inr s' \<and> invar s' \<and>
           entries s' = set_value (key (store s ! q)) v (entries s) \<and>
           capacity s' = capacity s \<and> hasher s' = hasher s"
proof -
  from inv have ok: "chains_ok s" and size: "sz s = length (nodes_sequence s)"
    and pow: "\<exists>n. capacity s = INIT_CAPACITY * 2 ^ n"
    by (simp_all add: invar_def)
  let ?seq = "nodes_sequence s"
  let ?st = "store s"
  let ?k = "key (?st ! q)"
  have ql: "q < length ?st" using invar_lt[OF inv q] .
  define s' where "s' = s\<lparr>store := ?st[q := (?st ! q)\<lparr>map_pair := (?k, v)\<rparr>]\<rparr>"
  have run: "write_ref s (Cell q) v = Inr s'"
    using q ql by (simp add: write_ref_def s'_def)
  have prj: "nodes_sequence s' = ?seq" "capacity s' = capacity s" "hasher s' = hasher s"
    "sz s' = sz s" "buckets s' = buckets s" "length (store s') = length ?st"
    by (simp_all add: s'_def)
  have nth: "store s' ! p = (if p = q then (?st ! q)\<lparr>map_pair := (?k, v)\<rparr> else ?st ! p)"
    if "p < length ?st" for p
    using that by (simp add: s'_def nth_list_update)
  have keys: "key (store s' ! p) = key (?st ! p)" if "p < length ?st" for p
    using that by (simp add: nth key_def)
  have pos: "sequence_pos (store s' ! p) = sequence_pos (?st ! p)" if "p < length ?st" for p
    using that by (simp add: nth)
  have bidx: "bucket_index (store s' ! p) = bucket_index (?st ! p)" if "p < length ?st" for p
    using that by (simp add: nth)
  have lt: "\<forall>p \<in> set ?seq. p < length ?st" using invar_lt[OF inv] by blast
  have mk: "map (\<lambda>p. key (store s' ! p)) ?seq = map (\<lambda>p. key (?st ! p)) ?seq"
    using lt keys by simp
  have ch: "chain_of (store s') i ?seq = chain_of ?st i ?seq" for i
    unfolding chain_of_def using lt bidx by (intro filter_cong) auto
  have ok': "chains_ok s'"
    using ok lt unfolding chains_ok_def prj mk ch by (simp add: keys pos bidx)
  have inv': "invar s'" using ok' size pow by (simp add: invar_def prj)
  have ent: "entries s' = set_value ?k v (entries s)"
  proof -
    have "map_pair (store s' ! p) = (if fst (map_pair (?st ! p)) = ?k then (?k, v) else map_pair (?st ! p))"
      if p: "p \<in> set ?seq" for p
    proof (cases "p = q")
      case True
      then show ?thesis using ql by (simp add: nth key_def)
    next
      case False
      then have "key (?st ! p) \<noteq> ?k" using chains_ok_key_inj[OF ok p q] by blast
      then show ?thesis using False lt p by (simp add: nth key_def)
    qed
    then show ?thesis by (simp add: entries_def set_value_def prj)
  qed
  show ?thesis using run inv' ent prj(2,3) by blast
qed

lemma set_value_absent: "k \<notin> fst ` set es \<Longrightarrow> set_value k v es = es"
  by (induction es) (auto simp: set_value_def)

lemma apply_op_refines:
  assumes inv: "invar s"
  shows "\<exists>s'. apply_op d s x = Inr s' \<and> invar s' \<and> view s' = spec_op d (view s) x \<and>
           hasher s' = hasher s"
proof (cases x)
  case (Insert k v)
  show ?thesis
  proof (cases "k \<in> fst ` set (entries s)")
    case True
    then show ?thesis
      using insert_hm_present[OF inv True, of v] inv by (simp add: Insert apply_op_def view_def)
  next
    case False
    from insert_hm_absent[OF inv False, of v] show ?thesis
      using False invar_size[OF inv] by (auto simp: Insert apply_op_def view_def)
  qed
next
  case (Index k)
  show ?thesis
  proof (cases "k \<in> fst ` set (entries s)")
    case True
    from index_op_present[OF inv True, of d] show ?thesis
      using True inv by (auto simp: Index apply_op_def view_def)
  next
    case False
    from index_op_absent[OF inv False, of d] show ?thesis
      using False invar_size[OF inv] by (auto simp: Index apply_op_def view_def)
  qed
next
  case (Assign k v)
  show ?thesis
  proof (cases "k \<in> fst ` set (entries s)")
    case True
    from index_op_present[OF inv True, of d]
    obtain q where q: "q \<in> set (nodes_sequence s)" "key (store s ! q) = k"
      "index_op d s k = Inr (s, Cell q)" by blast
    from write_ref_ok[OF inv q(1), of v] show ?thesis
      using True q(2,3) by (auto simp: Assign apply_op_def view_def)
  next
    case False
    from index_op_absent[OF inv False, of d]
    obtain s1 where s1: "index_op d s k = Inr (s1, Cell (length (store s)))" "invar s1"
      "entries s1 = (k, d) # entries s"
      "nodes_sequence s1 = length (store s) # nodes_sequence s"
      "capacity s1 = cap_after (sz s + 1) (capacity s)" "hasher s1 = hasher s"
      by blast
    have in1: "length (store s) \<in> set (nodes_sequence s1)" using s1(4) by simp
    have "map_pair (store s1 ! length (store s)) = (k, d)"
      using s1(3,4) by (simp add: entries_def)
    then have k1: "key (store s1 ! length (store s)) = k" by (simp add: key_def)
    from write_ref_ok[OF s1(2) in1, of v]
    obtain s' where s': "write_ref s1 (Cell (length (store s))) v = Inr s'" "invar s'"
      "entries s' = set_value k v (entries s1)" "capacity s' = capacity s1"
      "hasher s' = hasher s1"
      unfolding k1 by blast
    have "entries s' = (k, v) # entries s"
      using s'(3) s1(3) set_value_absent[OF False, of v]
      by (simp add: set_value_def)
    then show ?thesis
      using False s1(1,5,6) s'(1,2,4,5) invar_size[OF inv]
      by (simp add: Assign apply_op_def view_def)
  qed
next
  case (IterWrite k v)
  from inv have ok: "chains_ok s" by (simp add: invar_def)
  show ?thesis
  proof (cases "k \<in> fst ` set (entries s)")
    case True
    from find_hm_cases[OF ok, of k] True
    obtain q where q: "q \<in> set (nodes_sequence s)" "key (store s ! q) = k"
      "find_hm s k = Inr (Cell q)" by blast
    from write_ref_ok[OF inv q(1), of v] show ?thesis
      using True q(2,3) by (auto simp: IterWrite apply_op_def view_def end_hm_def)
  next
    case False
    have "find_hm s k = Inr PastEnd" using find_hm_absent[OF ok False] .
    then show ?thesis
      using False inv by (simp add: IterWrite apply_op_def view_def end_hm_def)
  qed
next
  case (Erase k)
  show ?thesis
  proof (cases "k \<in> fst ` set (entries s)")
    case True
    from erase_present[OF inv True] show ?thesis
      using True invar_size[OF inv] by (auto simp: Erase apply_op_def view_def)
  next
    case False
    then show ?thesis
      using erase_absent[OF inv False] inv by (simp add: Erase apply_op_def view_def)
  qed
next
  case Clear
  show ?thesis
    using clear_ok[OF inv] invar_cleared[of s]
    by (simp add: Clear apply_op_def view_def entries_def)
qed

lemma apply_ops_refines:
  assumes "invar s"
  shows "\<exists>s'. apply_ops d s xs = Inr s' \<and> invar s' \<and> view s' = spec_ops d (view s) xs \<and>
           hasher s' = hasher s"
  using assms
proof (induction xs arbitrary: s)
  case Nil
  then show ?case by simp
next
  case (Cons x xs)
  from apply_op_refines[OF Cons.prems, of d x]
  obtain s1 where s1: "apply_op d s x = Inr s1" "invar s1" "view s1 = spec_op d (view s) x"
    "hasher s1 = hasher s" by blast
  from Cons.IH[OF s1(2)]
  obtain s' where "apply_ops d s1 xs = Inr s'" "invar s'" "view s' = spec_ops d (view s1) xs"
    "hasher s' = hasher s1" by blast
  then show ?case using s1 by simp
qed

subsection \<open>Reachable states\<close>

lemma reachable_invar:
  "\<exists>s. apply_ops d (HashMap_init h) ops = Inr s \<and> invar s \<and> hasher s = h \<and>
        view s = spec_ops d ([], INIT_CAPACITY) ops"
proof -
  have v: "view (HashMap_init h :: ('a, 'b) HashMap) = ([], INIT_CAPACITY)"
    by (simp add: view_def entries_def HashMap_init_def)
  have "hasher (HashMap_init h :: ('a, 'b) HashMap) = h" by (simp add: HashMap_init_def)
  then show ?thesis
    using apply_ops_refines[OF invar_init, of d h ops] by (auto simp: v)
qed

lemma count_list_distinct: "distinct xs \<Longrightarrow> x \<in> set xs \<Longrightarrow> count_list xs x = 1"
  by (induction xs) auto

lemma sum_chain_lengths:
  fixes f :: "'a \<Rightarrow> nat"
  assumes "\<forall>p \<in> set ps. f p < n"
  shows "(\<Sum>i = 0..<n. length (filter (\<lambda>p. f p = i) ps)) = length ps"
  using assms
proof (induction ps)
  case Nil
  then show ?case by simp
next
  case (Cons a ps)
  have ih: "(\<Sum>i = 0..<n. length (filter (\<lambda>p. f p = i) ps)) = length ps"
    using Cons by simp
  have "f a \<in> {0..<n}" using Cons.prems by simp
  then have one: "(\<Sum>i = 0..<n. if i = f a then 1 else (0::nat)) = 1"
    using sum.delta[of "{0..<n}" "f a" "\<lambda>_. 1::nat"] by simp
  have "(\<Sum>i = 0..<n. length (filter (\<lambda>p. f p = i) (a # ps))) =
        (\<Sum>i = 0..<n. (if i = f a then 1 else 0) + length (filter (\<lambda>p. f p = i) ps))"
    by (intro sum.cong) auto
  also have "\<dots> = (\<Sum>i = 0..<n. if i = f a then 1 else 0) +
                   (\<Sum>i = 0..<n. length (filter (\<lambda>p. f p = i) ps))"
    by (rule sum.distrib)
  finally show ?case by (simp only: ih one) simp
qed

lemma chains_total:
  assumes ok: "chains_ok s"
  shows "sum_list (map length (buckets s)) = length (nodes_sequence s)"
proof -
  have "sum_list (map length (buckets s)) = (\<Sum>i = 0..<capacity s. length (buckets s ! i))"
    using ok by (simp add: sum_list_sum_nth chains_ok_def)
  also have "\<dots> = (\<Sum>i = 0..<capacity s.
      length (filter (\<lambda>p. bucket_index (store s ! p) = i) (nodes_sequence s)))"
    using ok by (intro sum.cong) (simp_all add: chains_ok_def chain_of_def)
  also have "\<dots> = length (nodes_sequence s)"
    using ok by (intro sum_chain_lengths) (simp add: chains_ok_def)
  finally show ?thesis .
qed

lemma chain_count:
  assumes ok: "chains_ok s" and p: "p \<in> set (nodes_sequence s)" and i: "i < capacity s"
  shows "count_list (buckets s ! i) p =
           (if i = hasher s (key (store s ! p)) mod capacity s then 1 else 0)"
proof -
  have d: "distinct (nodes_sequence s)" using ok by (simp add: chains_ok_def)
  have b: "buckets s ! i = chain_of (store s) i (nodes_sequence s)"
    using ok i by (simp add: chains_ok_def)
  have bi: "bucket_index (store s ! p) = hasher s (key (store s ! p)) mod capacity s"
    using ok p by (simp add: chains_ok_def)
  have dc: "distinct (chain_of (store s) i (nodes_sequence s))"
    using d by (simp add: chain_of_def)
  show ?thesis
  proof (cases "i = hasher s (key (store s ! p)) mod capacity s")
    case True
    then have "p \<in> set (chain_of (store s) i (nodes_sequence s))"
      using p bi by (simp add: chain_of_def)
    then show ?thesis using True dc b by (simp add: count_list_distinct)
  next
    case False
    then have "p \<notin> set (chain_of (store s) i (nodes_sequence s))"
      using bi by (simp add: chain_of_def)
    then show ?thesis using False b by (simp add: count_list_0_iff)
  qed
qed

text \<open>The definitions to unfold when an operation is run on a concrete container.\<close>

lemmas hm_defs = HashMap_init_def INIT_CAPACITY_def MAX_LOAD_FACTOR_def apply_op_def
  insert_hm_def insert_node_def find_hm_def get_hash_def bucket_at_def pop_front_def
  vector_resize_def list_erase_def end_hm_def begin_hm_def check_load_factor_def rehash_def
  index_op_def deref_def read_ref_def write_ref_def erase_def at_hm_def clear_def resize_def
  size_hm_def empty_hm_def key_def Let_def

subsection \<open>Traversal and lookup\<close>

lemma next_cell_append:
  "y \<notin> set xs \<Longrightarrow>
   next_cell y (xs @ y # ys) = Inr (case ys of [] \<Rightarrow> PastEnd | r # _ \<Rightarrow> Cell r)"
  by (induction xs) auto

lemma traverse_suffix:
  assumes "distinct (xs @ ys)" and "nodes_sequence s = xs @ ys"
    and "\<forall>p \<in> set ys. p < length (store s)" and "length ys \<le> n"
  shows "traverse n s (case ys of [] \<Rightarrow> PastEnd | p # _ \<Rightarrow> Cell p) =
           Some (Inr (map (\<lambda>p. map_pair (store s ! p)) ys))"
  using assms
proof (induction ys arbitrary: xs n)
  case Nil
  then show ?case by (cases n) (simp_all add: end_hm_def)
next
  case (Cons y ys)
  from Cons.prems(4) obtain m where n: "n = Suc m" and m: "length ys \<le> m"
    by (cases n) auto
  have y: "y \<notin> set xs" "y < length (store s)" "y \<in> set (nodes_sequence s)"
    using Cons.prems(1,2,3) by auto
  have d: "deref s (Cell y) = Inr (map_pair (store s ! y))"
    using y by (simp add: deref_def)
  have i: "incr s (Cell y) = Inr (case ys of [] \<Rightarrow> PastEnd | r # _ \<Rightarrow> Cell r)"
    using next_cell_append[OF y(1), of ys] Cons.prems(2) by (simp add: incr_def)
  have 1: "distinct ((xs @ [y]) @ ys)" using Cons.prems(1) by simp
  have 2: "nodes_sequence s = (xs @ [y]) @ ys" using Cons.prems(2) by simp
  have 3: "\<forall>p \<in> set ys. p < length (store s)" using Cons.prems(3) by simp
  have ih: "traverse m s (case ys of [] \<Rightarrow> PastEnd | p # _ \<Rightarrow> Cell p) =
           Some (Inr (map (\<lambda>p. map_pair (store s ! p)) ys))"
    using Cons.IH[OF 1 2 3 m] .
  show ?case
    by (simp add: n end_hm_def d i ih)
qed

lemma iterate_ok:
  assumes inv: "invar s"
  shows "iterate (size_hm s + m) s = Some (Inr (entries s))"
proof -
  from inv have ok: "chains_ok s" and size: "sz s = length (nodes_sequence s)"
    by (simp_all add: invar_def)
  have 1: "distinct ([] @ nodes_sequence s)" using ok by (simp add: chains_ok_def)
  have 2: "nodes_sequence s = [] @ nodes_sequence s" by simp
  have 3: "\<forall>p \<in> set (nodes_sequence s). p < length (store s)"
    using ok by (simp add: chains_ok_def)
  have 4: "length (nodes_sequence s) \<le> size_hm s + m" using size by (simp add: size_hm_def)
  from traverse_suffix[OF 1 2 3 4] show ?thesis
    by (simp add: iterate_def begin_hm_def entries_def)
qed

lemma lookup_entry:
  assumes inv: "invar s" and e: "(k, v) \<in> set (entries s)"
  shows "\<exists>p. find_hm s k = Inr (Cell p) \<and> deref s (Cell p) = Inr (k, v) \<and> at_hm s k = Inr v"
proof -
  from inv have ok: "chains_ok s" by (simp add: invar_def)
  from e obtain p where p: "p \<in> set (nodes_sequence s)" "map_pair (store s ! p) = (k, v)"
    by (auto simp: entries_def)
  have k: "key (store s ! p) = k" using p(2) by (simp add: key_def)
  have f: "find_hm s k = Inr (Cell p)" using find_hm_present[OF ok p(1) k] .
  have d: "deref s (Cell p) = Inr (k, v)"
    using p invar_lt[OF inv p(1)] by (simp add: deref_def)
  have "at_hm s k = Inr v"
    using f d by (simp add: at_hm_def end_hm_def read_ref_def)
  then show ?thesis using f d by blast
qed

lemma lookup_absent:
  assumes inv: "invar s" and k: "k \<notin> fst ` set (entries s)"
  shows "find_hm s k = Inr (end_hm s) \<and> at_hm s k = Inl OutOfRange"
proof -
  from inv have ok: "chains_ok s" by (simp add: invar_def)
  have "find_hm s k = Inr PastEnd" using find_hm_absent[OF ok k] .
  then show ?thesis by (simp add: at_hm_def end_hm_def)
qed

lemma find_end_absent:
  assumes inv: "invar s" and f: "find_hm s k = Inr (end_hm s)"
  shows "k \<notin> fst ` set (entries s)"
proof
  assume "k \<in> fst ` set (entries s)"
  then obtain v where "(k, v) \<in> set (entries s)" by auto
  from lookup_entry[OF inv this] f show False by (auto simp: end_hm_def)
qed

lemma spec_ops_append: "spec_ops d a (xs @ ys) = spec_ops d (spec_ops d a xs) ys"
  by (induction xs arbitrary: a) simp_all

lemma apply_ops_append:
  "apply_ops d s xs = Inr s1 \<Longrightarrow> apply_ops d s (xs @ ys) = apply_ops d s1 ys"
  by (induction xs arbitrary: s) (auto split: sum.splits)

subsection \<open>Bindings under the specification's operations\<close>

lemma spec_op_keeps:
  assumes "(k, v) \<in> set (fst a)" and "\<not> ends_binding k x"
  shows "(k, v) \<in> set (fst (spec_op d a x))"
proof -
  obtain es c where a: "a = (es, c)" by (cases a)
  show ?thesis
    using assms unfolding a
    by (cases x) (auto simp: ends_binding_def set_value_def)
qed

lemma spec_ops_keeps:
  assumes "(k, v) \<in> set (fst a)" and "\<forall>x \<in> set xs. \<not> ends_binding k x"
  shows "(k, v) \<in> set (fst (spec_ops d a xs))"
  using assms
proof (induction xs arbitrary: a)
  case Nil
  then show ?case by simp
next
  case (Cons x xs)
  have "(k, v) \<in> set (fst (spec_op d a x))"
    using Cons.prems by (intro spec_op_keeps) simp_all
  then show ?case using Cons.IH Cons.prems(2) by simp
qed

subsection \<open>Absent keys\<close>

lemma erase_then_absent:
  assumes inv: "invar s"
  shows "\<exists>s'. erase s k = Inr s' \<and> invar s' \<and> k \<notin> fst ` set (entries s')"
proof (cases "k \<in> fst ` set (entries s)")
  case True
  from erase_present[OF inv True]
  obtain s' where s': "erase s k = Inr s'" "invar s'"
    "entries s' = filter (\<lambda>e. fst e \<noteq> k) (entries s)" by blast
  have "k \<notin> fst ` set (entries s')" unfolding s'(3) by auto
  then show ?thesis using s'(1,2) by blast
next
  case False
  then show ?thesis using erase_absent[OF inv False] inv by simp
qed

lemma at_hm_total:
  assumes inv: "invar s"
  shows "(k \<notin> fst ` set (entries s) \<and> at_hm s k = Inl OutOfRange) \<or>
         (k \<in> fst ` set (entries s) \<and> (\<exists>v. at_hm s k = Inr v))"
proof (cases "k \<in> fst ` set (entries s)")
  case True
  then obtain v where "(k, v) \<in> set (entries s)" by auto
  from lookup_entry[OF inv this] show ?thesis using True by blast
next
  case False
  then show ?thesis using lookup_absent[OF inv False] by simp
qed

subsection \<open>clear and the alignment of chains\<close>

lemma view_cleared:
  "view (s\<lparr>buckets := replicate INIT_CAPACITY [], nodes_sequence := [],
            capacity := INIT_CAPACITY, sz := 0\<rparr>) = ([], INIT_CAPACITY)"
  by (simp add: view_def entries_def)

subsection \<open>The resize policy at capacities 16 and 32\<close>

lemma cap_after_16_below_12: "n \<le> 11 \<Longrightarrow> cap_after n 16 = 16"
proof -
  assume "n \<le> 11"
  then have "(of_nat n :: rat) \<le> 11" by (metis of_nat_le_iff of_nat_numeral)
  then have "\<not> MAX_LOAD_FACTOR \<le> (of_nat n :: rat) / of_nat 16"
    by (simp add: MAX_LOAD_FACTOR_def)
  then show ?thesis by (simp add: cap_after_def INIT_CAPACITY_def)
qed

lemma cap_after_16_at_12: "cap_after 12 16 = 32"
  by (simp add: cap_after_def MAX_LOAD_FACTOR_def)

lemma cap_after_32_between: "6 \<le> n \<Longrightarrow> n \<le> 22 \<Longrightarrow> cap_after n 32 = 32"
proof -
  assume "6 \<le> n" "n \<le> 22"
  then have "(6::rat) \<le> of_nat n" "(of_nat n :: rat) \<le> 22"
    by (metis of_nat_le_iff of_nat_numeral)+
  then have "\<not> MAX_LOAD_FACTOR \<le> (of_nat n :: rat) / of_nat 32"
    "\<not> (of_nat n :: rat) / of_nat 32 \<le> MAX_LOAD_FACTOR / 4"
    by (simp_all add: MAX_LOAD_FACTOR_def)
  then show ?thesis by (simp add: cap_after_def)
qed

lemma cap_after_32_at_5: "cap_after 5 32 = 16"
  by (simp add: cap_after_def MAX_LOAD_FACTOR_def INIT_CAPACITY_def)

lemma inserts_spec:
  assumes "distinct (map fst kvs)" and "fst ` set kvs \<inter> fst ` set es = {}"
    and "length es + length kvs \<le> 11"
  shows "spec_ops d (es, 16) (map (\<lambda>(k, v). Insert k v) kvs) = (rev kvs @ es, 16)"
  using assms
proof (induction kvs arbitrary: es)
  case Nil
  then show ?case by simp
next
  case (Cons kv kvs)
  obtain k v where kv: "kv = (k, v)" by (cases kv)
  have k: "k \<notin> fst ` set es" using Cons.prems(2) by (auto simp: kv)
  have c: "cap_after (length es + 1) 16 = 16"
    using Cons.prems(3) by (intro cap_after_16_below_12) simp
  have 1: "distinct (map fst kvs)" using Cons.prems(1) by simp
  have 2: "fst ` set kvs \<inter> fst ` set ((k, v) # es) = {}"
    using Cons.prems(1,2) by (auto simp: kv)
  have 3: "length ((k, v) # es) + length kvs \<le> 11" using Cons.prems(3) by simp
  show ?case
    using Cons.IH[OF 1 2 3] k c by (simp add: kv)
qed

lemma twelve_inserts_spec:
  assumes "distinct (map fst kvs)" and "length kvs = 12"
  shows "spec_ops d ([], INIT_CAPACITY) (map (\<lambda>(k, v). Insert k v) kvs) = (rev kvs, 32)"
proof -
  obtain xs kv where kvs: "kvs = xs @ [kv]"
    using assms(2) by (cases kvs rule: rev_cases) auto
  obtain k v where kv: "kv = (k, v)" by (cases kv)
  have len: "length xs = 11" using assms(2) by (simp add: kvs)
  have d: "distinct (map fst xs)" using assms(1) by (simp add: kvs)
  have first: "spec_ops d ([], 16) (map (\<lambda>(k, v). Insert k v) xs) = (rev xs, 16)"
    using inserts_spec[OF d, of "[]" d] len by simp
  have k: "k \<notin> fst ` set (rev xs)" using assms(1) by (auto simp: kvs kv)
  have "spec_op d (rev xs, 16) (Insert k v) = ((k, v) # rev xs, cap_after (length (rev xs) + 1) 16)"
    using k by simp
  then have last: "spec_op d (rev xs, 16) (Insert k v) = ((k, v) # rev xs, 32)"
    by (simp add: len cap_after_16_at_12)
  show ?thesis
    using last first
    by (simp add: kvs kv spec_ops_append INIT_CAPACITY_def del: spec_op.simps)
qed

lemma prefix_inserts_spec:
  assumes "distinct (map fst kvs)" and "length kvs \<le> 11"
  shows "spec_ops d ([], INIT_CAPACITY) (map (\<lambda>(k, v). Insert k v) kvs) = (rev kvs, 16)"
  using inserts_spec[OF assms(1), of "[]" d] assms(2) by (simp add: INIT_CAPACITY_def)

lemma length_filter_key:
  assumes "distinct (map fst es)" and "k \<in> fst ` set es"
  shows "length (filter (\<lambda>e. fst e \<noteq> k) es) = length es - 1"
  using assms
proof (induction es)
  case Nil
  then show ?case by simp
next
  case (Cons e es)
  show ?case
  proof (cases "fst e = k")
    case True
    then have "k \<notin> fst ` set es" using Cons.prems(1) by simp
    then have "\<forall>x \<in> set es. fst x \<noteq> k" by force
    then have "filter (\<lambda>e. fst e \<noteq> k) es = es" by (simp add: filter_id_conv)
    then show ?thesis using True by simp
  next
    case False
    then have k: "k \<in> fst ` set es" using Cons.prems(2) by auto
    then have "es \<noteq> []" by auto
    then have "0 < length es" by simp
    moreover have "length (filter (\<lambda>e. fst e \<noteq> k) es) = length es - 1"
      using Cons.IH k Cons.prems(1) by simp
    ultimately show ?thesis using False by simp
  qed
qed

lemma erases_spec:
  assumes "distinct (map fst es)" and "distinct ks" and "set ks \<subseteq> fst ` set es"
    and "length es \<le> 23" and "6 + length ks \<le> length es"
  shows "spec_ops d (es, 32) (map Erase ks) = (filter (\<lambda>e. fst e \<notin> set ks) es, 32)"
  using assms
proof (induction ks arbitrary: es)
  case Nil
  then show ?case by simp
next
  case (Cons k ks)
  let ?es = "filter (\<lambda>e. fst e \<noteq> k) es"
  have k: "k \<in> fst ` set es" using Cons.prems(3) by simp
  have len: "length ?es = length es - 1" using length_filter_key[OF Cons.prems(1) k] .
  have c: "cap_after (length es - 1) 32 = 32"
    using Cons.prems(4,5) by (intro cap_after_32_between) simp_all
  have step: "spec_op d (es, 32) (Erase k) = (?es, 32)" using k c by simp
  have 1: "distinct (map fst ?es)" using Cons.prems(1) by (simp add: distinct_map_filter)
  have 2: "distinct ks" using Cons.prems(2) by simp
  have 3: "set ks \<subseteq> fst ` set ?es"
  proof
    fix x assume x: "x \<in> set ks"
    then have "x \<noteq> k" using Cons.prems(2) by auto
    moreover obtain e where "e \<in> set es" "fst e = x" using x Cons.prems(3) by auto
    ultimately have "e \<in> set ?es" by simp
    then show "x \<in> fst ` set ?es" using \<open>fst e = x\<close> by force
  qed
  have 4: "length ?es \<le> 23" using len Cons.prems(4) by simp
  have 5: "6 + length ks \<le> length ?es" using len Cons.prems(5) by simp
  have "filter (\<lambda>e. fst e \<notin> set ks) ?es = filter (\<lambda>e. fst e \<notin> set (k # ks)) es"
    by (auto intro: filter_cong)
  then show ?case
    using Cons.IH[OF 1 2 3 4 5] step by (simp del: spec_op.simps)
qed

lemma seven_erases_spec:
  assumes "distinct (map fst es)" and "length es = 12"
    and "distinct ks" and "set ks \<subseteq> fst ` set es" and "length ks = 7"
  shows "spec_ops d (es, 32) (map Erase ks) = (filter (\<lambda>e. fst e \<notin> set ks) es, 16)"
proof -
  obtain xs k where ks: "ks = xs @ [k]"
    using assms(5) by (cases ks rule: rev_cases) auto
  have len: "length xs = 6" using assms(5) by (simp add: ks)
  let ?es = "filter (\<lambda>e. fst e \<notin> set xs) es"
  have first: "spec_ops d (es, 32) (map Erase xs) = (?es, 32)"
    using assms(1-4) len by (intro erases_spec) (simp_all add: ks)
  have d: "distinct (map fst ?es)" using assms(1) by (simp add: distinct_map_filter)
  have k: "k \<in> fst ` set ?es" using assms(3,4) by (auto simp: ks)
  have "length ?es + length (filter (\<lambda>e. fst e \<in> set xs) es) = length es"
    using sum_length_filter_compl[of "\<lambda>e. fst e \<notin> set xs" es] by simp
  moreover have "length (filter (\<lambda>e. fst e \<in> set xs) es) = length xs"
  proof -
    have "distinct (map fst (filter (\<lambda>e. fst e \<in> set xs) es))"
      using assms(1) by (simp add: distinct_map_filter)
    moreover have "set (map fst (filter (\<lambda>e. fst e \<in> set xs) es)) = set xs"
      using assms(4) by (auto simp: ks image_iff)
    ultimately have "card (set xs) = length (map fst (filter (\<lambda>e. fst e \<in> set xs) es))"
      by (metis distinct_card)
    moreover have "card (set xs) = length xs" using assms(3) by (simp add: ks distinct_card)
    ultimately show ?thesis by simp
  qed
  ultimately have l6: "length ?es = 6" using assms(2) len by simp
  have "spec_op d (?es, 32) (Erase k) =
          (filter (\<lambda>e. fst e \<noteq> k) ?es, cap_after (length ?es - 1) 32)"
    using k by simp
  then have last: "spec_op d (?es, 32) (Erase k) = (filter (\<lambda>e. fst e \<noteq> k) ?es, 16)"
    by (simp add: l6 cap_after_32_at_5)
  have "filter (\<lambda>e. fst e \<noteq> k) ?es = filter (\<lambda>e. fst e \<notin> set ks) es"
    by (auto simp: ks intro: filter_cong)
  then show ?thesis
    using first last by (simp add: ks spec_ops_append del: spec_op.simps)
qed

lemma twelve_inserts_run:
  assumes "distinct (map fst kvs)" and "length kvs = 12"
  shows "\<exists>s. apply_ops d (HashMap_init h) (map (\<lambda>(k, v). Insert k v) kvs) = Inr s \<and> invar s \<and>
           entries s = rev kvs \<and> capacity s = 32 \<and> size_hm s = 12"
proof -
  from reachable_invar[of d h "map (\<lambda>(k, v). Insert k v) kvs"]
  obtain s where s: "apply_ops d (HashMap_init h) (map (\<lambda>(k, v). Insert k v) kvs) = Inr s"
    "invar s" "view s = spec_ops d ([], INIT_CAPACITY) (map (\<lambda>(k, v). Insert k v) kvs)"
    by blast
  have v: "view s = (rev kvs, 32)" using s(3) twelve_inserts_spec[OF assms, of d] by simp
  then have e: "entries s = rev kvs" "capacity s = 32" by (simp_all add: view_def)
  have "size_hm s = 12" using invar_size[OF s(2)] e(1) assms(2) by (simp add: size_hm_def)
  then show ?thesis using s(1,2) e by blast
qed

section \<open>The claims\<close>

text \<open>
  Claim C2. After every sequence of public operations on a new container the operations
  have all returned normally, and in the state reached: \<^verbatim>\<open>size()\<close> is the number of nodes
  of the order sequence, which is the total number of nodes in the bucket chains; no two
  nodes of the order sequence are the same node or have equal keys; there are as many
  chains as the capacity says, every chain holds only nodes of the order sequence, and
  every node of the order sequence occurs exactly once in the chain with index
  \<open>hash(key) mod capacity\<close> and in no other chain.
\<close>

theorem invariants_after_operations:
  "\<exists>s. apply_ops d (HashMap_init h) ops = Inr s \<and>
     size_hm s = length (nodes_sequence s) \<and>
     length (nodes_sequence s) = sum_list (map length (buckets s)) \<and>
     distinct (nodes_sequence s) \<and>
     distinct (map (\<lambda>p. key (store s ! p)) (nodes_sequence s)) \<and>
     length (buckets s) = capacity s \<and>
     (\<forall>i < capacity s. set (buckets s ! i) \<subseteq> set (nodes_sequence s)) \<and>
     (\<forall>p \<in> set (nodes_sequence s). \<forall>i < capacity s.
        count_list (buckets s ! i) p = (if i = h (key (store s ! p)) mod capacity s then 1 else 0))"
proof -
  from reachable_invar[of d h ops]
  obtain s where s: "apply_ops d (HashMap_init h) ops = Inr s" "invar s" "hasher s = h"
    by blast
  from s(2) have ok: "chains_ok s" and size: "sz s = length (nodes_sequence s)"
    by (simp_all add: invar_def)
  have 1: "\<forall>i < capacity s. set (buckets s ! i) \<subseteq> set (nodes_sequence s)"
    using ok chain_of_subset[of "store s" _ "nodes_sequence s"] by (simp add: chains_ok_def)
  have 2: "\<forall>p \<in> set (nodes_sequence s). \<forall>i < capacity s.
        count_list (buckets s ! i) p = (if i = h (key (store s ! p)) mod capacity s then 1 else 0)"
    using chain_count[OF ok] s(3) by blast
  have 3: "distinct (nodes_sequence s)"
    "distinct (map (\<lambda>p. key (store s ! p)) (nodes_sequence s))"
    "length (buckets s) = capacity s"
    using ok by (simp_all add: chains_ok_def)
  show ?thesis
    using s(1) size chains_total[OF ok] 1 2 3 by (intro exI[of _ s]) (simp add: size_hm_def)
qed

theorem invariants_after_operations_witness:
  "\<exists>s. apply_ops (0::nat) (HashMap_init id) [Insert (1::nat) 10, Insert 17 20] = Inr s \<and>
     nodes_sequence s = [1, 0] \<and> capacity s = 16 \<and> size_hm s = 2 \<and>
     sum_list (map length (buckets s)) = 2 \<and>
     count_list (buckets s ! 1) 0 = 1 \<and> count_list (buckets s ! 2) 0 = 0"
proof -
  from invariants_after_operations[of "0::nat" id "[Insert (1::nat) 10, Insert 17 20]"]
  obtain s where s: "apply_ops (0::nat) (HashMap_init id) [Insert (1::nat) 10, Insert 17 20] = Inr s"
    and size: "size_hm s = length (nodes_sequence s)"
    and total: "length (nodes_sequence s) = sum_list (map length (buckets s))"
    and cnt: "\<forall>p \<in> set (nodes_sequence s). \<forall>i < capacity s.
        count_list (buckets s ! i) p = (if i = id (key (store s ! p)) mod capacity s then 1 else 0)"
    by blast
  have st: "nodes_sequence s = [1, 0]" "capacity s = 16" "key (store s ! 0) = 1"
    using s by (auto simp: hm_defs)
  have "count_list (buckets s ! 1) 0 = 1" "count_list (buckets s ! 2) 0 = 0"
    using cnt by (simp_all add: st)
  then show ?thesis using s size total by (simp add: st)
qed

text \<open>
  Claim C3. For every sequence of public operations on a new container, the traversal
  from \<^verbatim>\<open>begin()\<close> to \<^verbatim>\<open>end()\<close> ends within \<^verbatim>\<open>size()\<close> rounds and yields the entries of
  the order sequence as the specification describes it: each newly inserted key is put
  in front of the older ones, and an erased key is taken out. In particular, after the
  inserts of (1, a), (2, b), (3, c) the traversal yields (3, c), (2, b), (1, a), whatever
  the hash function.
\<close>

theorem iteration_most_recent_first:
  "(\<exists>s. apply_ops d (HashMap_init h) ops = Inr s \<and>
        iterate (size_hm s + m) s = Some (Inr (fst (spec_ops d ([], INIT_CAPACITY) ops)))) \<and>
   (\<exists>s. apply_ops d' (HashMap_init h')
           [Insert (1::nat) ''a'', Insert 2 ''b'', Insert 3 ''c''] = Inr s \<and>
        iterate (size_hm s) s = Some (Inr [(3, ''c''), (2, ''b''), (1, ''a'')]))"
proof
  from reachable_invar[of d h ops]
  obtain s where s: "apply_ops d (HashMap_init h) ops = Inr s" "invar s"
    "view s = spec_ops d ([], INIT_CAPACITY) ops" by blast
  have "entries s = fst (spec_ops d ([], INIT_CAPACITY) ops)"
    using s(3)[symmetric] by (simp add: view_def)
  then show "\<exists>s. apply_ops d (HashMap_init h) ops = Inr s \<and>
        iterate (size_hm s + m) s = Some (Inr (fst (spec_ops d ([], INIT_CAPACITY) ops)))"
    using s(1) iterate_ok[OF s(2), of m] by auto
next
  let ?ops = "[Insert (1::nat) ''a'', Insert 2 ''b'', Insert 3 ''c'']"
  from reachable_invar[of d' h' ?ops]
  obtain s where s: "apply_ops d' (HashMap_init h') ?ops = Inr s" "invar s"
    "view s = spec_ops d' ([], INIT_CAPACITY) ?ops" by blast
  have "entries s = fst (spec_ops d' ([], INIT_CAPACITY) ?ops)"
    using s(3)[symmetric] by (simp add: view_def)
  then have "entries s = [(3, ''c''), (2, ''b''), (1, ''a'')]" by simp
  then show "\<exists>s. apply_ops d' (HashMap_init h') ?ops = Inr s \<and>
        iterate (size_hm s) s = Some (Inr [(3, ''c''), (2, ''b''), (1, ''a'')])"
    using s(1) iterate_ok[OF s(2), of 0] by auto
qed

text \<open>
  Claim C1, as amended. In every state that public operations reach, if \<open>k\<close> is absent
  (\<^verbatim>\<open>find\<close> returns the end position) then \<^verbatim>\<open>insert(k, v)\<close> succeeds, and after every
  further sequence of public operations none of which ends the binding of \<open>k\<close> (no
  \<^verbatim>\<open>erase(k)\<close>, no \<^verbatim>\<open>clear()\<close>, which erases every key, no \<^verbatim>\<open>m[k] = ...\<close>, and no write
  to the value of \<open>k\<close> through an iterator), \<^verbatim>\<open>find(k)\<close> returns a position that
  dereferences to \<open>(k, v)\<close> and \<^verbatim>\<open>at(k)\<close> returns \<open>v\<close>. The further operations are
  arbitrary otherwise, writes through iterators to other keys included, so they may grow
  and shrink the table any number of times.
\<close>

theorem binding_survives:
  assumes "apply_ops d (HashMap_init h) pre = Inr s0"
    and "find_hm s0 k = Inr (end_hm s0)"
    and "\<forall>x \<in> set ops. \<not> ends_binding k x"
  shows "\<exists>s1 s2 p. insert_hm s0 (k, v) = Inr s1 \<and> apply_ops d s1 ops = Inr s2 \<and>
           find_hm s2 k = Inr (Cell p) \<and> deref s2 (Cell p) = Inr (k, v) \<and>
           at_hm s2 k = Inr v"
proof -
  from reachable_invar[of d h pre] assms(1) have inv0: "invar s0" by auto
  have absent: "k \<notin> fst ` set (entries s0)" using find_end_absent[OF inv0 assms(2)] .
  from insert_hm_absent[OF inv0 absent, of v]
  obtain s1 where s1: "insert_hm s0 (k, v) = Inr s1" "invar s1"
    "entries s1 = (k, v) # entries s0" by blast
  from apply_ops_refines[OF s1(2), of d ops]
  obtain s2 where s2: "apply_ops d s1 ops = Inr s2" "invar s2"
    "view s2 = spec_ops d (view s1) ops" by blast
  have "(k, v) \<in> set (fst (view s1))" using s1(3) by (simp add: view_def)
  from spec_ops_keeps[OF this assms(3), of d]
  have "(k, v) \<in> set (entries s2)" using s2(3)[symmetric] by (simp add: view_def)
  from lookup_entry[OF s2(2) this] show ?thesis using s1(1) s2(1) by blast
qed

theorem binding_survives_witness:
  "apply_ops (0::nat) (HashMap_init id) [] = Inr (HashMap_init id) \<and>
   find_hm (HashMap_init id :: (nat, nat) HashMap) 7 = Inr (end_hm (HashMap_init id :: (nat, nat) HashMap)) \<and>
   \<not> ends_binding (7::nat) (Insert 23 (1::nat)) \<and> \<not> ends_binding (7::nat) (Erase 23 :: (nat, nat) op) \<and>
   \<not> ends_binding (7::nat) (Assign 39 (2::nat)) \<and> \<not> ends_binding (7::nat) (Index 5 :: (nat, nat) op) \<and>
   \<not> ends_binding (7::nat) (IterWrite 39 (3::nat)) \<and>
   (\<exists>s1 s2 p. insert_hm (HashMap_init id) (7, 70) = Inr s1 \<and>
      apply_ops (0::nat) s1 [Insert 23 1, Erase 23, Assign 39 2, Index 5, IterWrite 39 3] = Inr s2 \<and>
      find_hm s2 (7::nat) = Inr (Cell p) \<and> deref s2 (Cell p) = Inr (7, 70) \<and>
      at_hm s2 7 = Inr 70)"
proof -
  have 1: "apply_ops (0::nat) (HashMap_init id) [] = Inr (HashMap_init id :: (nat, nat) HashMap)"
    by simp
  have 2: "find_hm (HashMap_init id :: (nat, nat) HashMap) 7 =
           Inr (end_hm (HashMap_init id :: (nat, nat) HashMap))"
    by (simp add: hm_defs)
  have 3: "\<forall>x \<in> set [Insert 23 1, Erase 23, Assign 39 2, Index 5, IterWrite 39 3 :: (nat, nat) op].
             \<not> ends_binding (7::nat) x"
    by (simp add: ends_binding_def)
  from binding_survives[OF 1 2 3, of 70] show ?thesis
    using 1 2 by (simp add: ends_binding_def)
qed

text \<open>
  The claim C1 as it is stated, with \<^verbatim>\<open>erase\<close> and \<^verbatim>\<open>operator[]\<close> as the only ways to end
  a binding, fails: after \<^verbatim>\<open>insert(7, 70)\<close> the write \<^verbatim>\<open>m.find(7)->second = 99\<close> through
  the iterator neither erases key 7 nor goes through \<^verbatim>\<open>operator[]\<close>, and \<^verbatim>\<open>at(7)\<close>
  returns 99.
\<close>

theorem binding_iterator_write_counterexample:
  "at_after (0::nat) id [Insert (7::nat) 70, IterWrite 7 99] 7 = Inr 99"
  by (simp add: at_after_def hm_defs)

text \<open>
  Claim C7. After every sequence of public operations on a new container: all the
  operations have returned normally; \<^verbatim>\<open>find\<close> returns a position; \<^verbatim>\<open>at(k)\<close> either
  returns a value or throws \<^verbatim>\<open>std::out_of_range\<close> (the specification's NotFound), and it
  throws exactly when \<open>k\<close> is absent; for an absent \<open>k\<close>, \<^verbatim>\<open>find(k)\<close> returns the end
  position and \<^verbatim>\<open>erase(k)\<close> returns the state unchanged; and \<^verbatim>\<open>erase(k)\<close> always returns
  normally, after which \<^verbatim>\<open>find(k)\<close> returns the end position and \<^verbatim>\<open>at(k)\<close> throws.
\<close>

theorem only_at_signals_absence:
  "\<exists>s. apply_ops d (HashMap_init h) ops = Inr s \<and>
     (\<exists>it. find_hm s k = Inr it) \<and>
     (at_hm s k = Inl OutOfRange \<or> (\<exists>v. at_hm s k = Inr v)) \<and>
     (at_hm s k = Inl OutOfRange \<longleftrightarrow> k \<notin> fst ` set (entries s)) \<and>
     (k \<notin> fst ` set (entries s) \<longrightarrow> find_hm s k = Inr (end_hm s) \<and> erase s k = Inr s) \<and>
     (\<exists>s'. erase s k = Inr s' \<and> find_hm s' k = Inr (end_hm s') \<and>
           at_hm s' k = Inl OutOfRange)"
proof -
  from reachable_invar[of d h ops]
  obtain s where s: "apply_ops d (HashMap_init h) ops = Inr s" "invar s" by blast
  from s(2) have ok: "chains_ok s" by (simp add: invar_def)
  have 1: "\<exists>it. find_hm s k = Inr it" using find_hm_cases[OF ok, of k] by blast
  have 2: "at_hm s k = Inl OutOfRange \<or> (\<exists>v. at_hm s k = Inr v)"
    using at_hm_total[OF s(2), of k] by blast
  have 3: "at_hm s k = Inl OutOfRange \<longleftrightarrow> k \<notin> fst ` set (entries s)"
    using at_hm_total[OF s(2), of k] by auto
  have 4: "k \<notin> fst ` set (entries s) \<longrightarrow> find_hm s k = Inr (end_hm s) \<and> erase s k = Inr s"
    using lookup_absent[OF s(2), of k] erase_absent[OF s(2), of k] by blast
  from erase_then_absent[OF s(2), of k]
  obtain s' where s': "erase s k = Inr s'" "invar s'" "k \<notin> fst ` set (entries s')" by blast
  have 5: "\<exists>s'. erase s k = Inr s' \<and> find_hm s' k = Inr (end_hm s') \<and>
           at_hm s' k = Inl OutOfRange"
    using s'(1) lookup_absent[OF s'(2,3)] by blast
  show ?thesis using s(1) 1 2 3 4 5 by blast
qed

theorem only_at_signals_absence_witness:
  "\<exists>s. apply_ops (0::nat) (HashMap_init id) [Insert (3::nat) 30] = Inr s \<and>
     entries s = [(3, 30)] \<and>
     at_hm s 4 = Inl OutOfRange \<and> find_hm s 4 = Inr (end_hm s) \<and> erase s 4 = Inr s \<and>
     at_hm s 3 = Inr 30"
proof -
  from only_at_signals_absence[of "0::nat" id "[Insert (3::nat) 30]" 4]
  obtain s where s: "apply_ops (0::nat) (HashMap_init id) [Insert (3::nat) 30] = Inr s"
    and iff: "at_hm s 4 = Inl OutOfRange \<longleftrightarrow> 4 \<notin> fst ` set (entries s)"
    and imp: "4 \<notin> fst ` set (entries s) \<longrightarrow> find_hm s 4 = Inr (end_hm s) \<and> erase s 4 = Inr s"
    by blast
  have e: "entries s = [(3, 30)]" using s by (auto simp: hm_defs entries_def)
  have "at_hm s 3 = Inr 30" using s by (auto simp: hm_defs)
  then show ?thesis using s iff imp by (simp add: e)
qed

text \<open>
  Claim C6. In every state that public operations reach, \<^verbatim>\<open>insert(k, v1)\<close> followed by
  \<^verbatim>\<open>insert(k, v2)\<close> succeeds and the second insert returns the state it was given:
  values, order sequence, size and capacity are all unchanged. The first writer wins:
  if \<open>k\<close> was absent before the first insert, \<^verbatim>\<open>at(k)\<close> is \<open>v1\<close> afterwards; if \<open>k\<close>
  was present with value \<open>v0\<close>, the first insert is a re-insert of a present key, changes
  nothing either, and \<^verbatim>\<open>at(k)\<close> is still \<open>v0\<close>.
\<close>

theorem reinsert_changes_nothing:
  "\<exists>s s1. apply_ops d (HashMap_init h) pre = Inr s \<and>
     insert_hm s (k, v1) = Inr s1 \<and> insert_hm s1 (k, v2) = Inr s1 \<and>
     (find_hm s k = Inr (end_hm s) \<longrightarrow> at_hm s1 k = Inr v1) \<and>
     (\<forall>v0. at_hm s k = Inr v0 \<longrightarrow> s1 = s \<and> at_hm s1 k = Inr v0)"
proof -
  from reachable_invar[of d h pre]
  obtain s where s: "apply_ops d (HashMap_init h) pre = Inr s" "invar s" by blast
  show ?thesis
  proof (cases "k \<in> fst ` set (entries s)")
    case True
    have i1: "insert_hm s (k, v1) = Inr s" using insert_hm_present[OF s(2) True] .
    have i2: "insert_hm s (k, v2) = Inr s" using insert_hm_present[OF s(2) True] .
    from True obtain v where "(k, v) \<in> set (entries s)" by auto
    from lookup_entry[OF s(2) this]
    have "find_hm s k \<noteq> Inr (end_hm s)" by (auto simp: end_hm_def)
    then show ?thesis using s(1) i1 i2 by (intro exI[of _ s]) simp
  next
    case False
    from insert_hm_absent[OF s(2) False, of v1]
    obtain s1 where s1: "insert_hm s (k, v1) = Inr s1" "invar s1"
      "entries s1 = (k, v1) # entries s" by blast
    have "k \<in> fst ` set (entries s1)" using s1(3) by simp
    then have i2: "insert_hm s1 (k, v2) = Inr s1" using insert_hm_present[OF s1(2)] by blast
    have "(k, v1) \<in> set (entries s1)" using s1(3) by simp
    from lookup_entry[OF s1(2) this] have a1: "at_hm s1 k = Inr v1" by blast
    have "at_hm s k = Inl OutOfRange" using lookup_absent[OF s(2) False] by simp
    then show ?thesis using s(1) s1(1) i2 a1 by (intro exI[of _ s] exI[of _ s1]) simp
  qed
qed

theorem reinsert_changes_nothing_witness:
  "\<exists>s s1. apply_ops (0::nat) (HashMap_init id) [Insert (5::nat) 50] = Inr s \<and>
     find_hm s 6 = Inr (end_hm s) \<and>
     insert_hm s (6, 1) = Inr s1 \<and> insert_hm s1 (6, 2) = Inr s1 \<and> at_hm s1 6 = Inr 1"
proof -
  from reinsert_changes_nothing[of "0::nat" id "[Insert (5::nat) 50]" 6 1 2]
  obtain s s1 where s: "apply_ops (0::nat) (HashMap_init id) [Insert (5::nat) 50] = Inr s"
    and i: "insert_hm s (6, 1) = Inr s1" "insert_hm s1 (6, 2) = Inr s1"
    and a: "find_hm s 6 = Inr (end_hm s) \<longrightarrow> at_hm s1 6 = Inr 1"
    by blast
  have "find_hm s 6 = Inr (end_hm s)" using s by (auto simp: hm_defs)
  then show ?thesis using s i a by blast
qed


text \<open>
  Claim C9. In every state that public operations reach, \<^verbatim>\<open>clear()\<close> returns normally
  and leaves no entry, size 0 (so \<^verbatim>\<open>empty()\<close> holds and \<^verbatim>\<open>find\<close> returns the end position
  for every key), 16 empty chains and capacity 16, whatever the capacity was before.
  From then on the container behaves as a new one: every further sequence of operations
  succeeds and ends with the same entries, size and capacity as it does on a new
  container, so the capacity grows and shrinks on the schedule of the initial capacity.
\<close>

theorem clear_resets:
  "\<exists>s s'. apply_ops d (HashMap_init h) ops = Inr s \<and> clear s = Inr s' \<and>
     entries s' = [] \<and> nodes_sequence s' = [] \<and> size_hm s' = 0 \<and> empty_hm s' \<and>
     find_hm s' k = Inr (end_hm s') \<and>
     capacity s' = 16 \<and> buckets s' = replicate 16 [] \<and>
     (\<exists>t t0. apply_ops d s' rest = Inr t \<and> apply_ops d (HashMap_init h) rest = Inr t0 \<and>
        entries t = entries t0 \<and> size_hm t = size_hm t0 \<and> capacity t = capacity t0)"
proof -
  from reachable_invar[of d h ops]
  obtain s where s: "apply_ops d (HashMap_init h) ops = Inr s" "invar s" by blast
  define s' where "s' = s\<lparr>buckets := replicate INIT_CAPACITY [], nodes_sequence := [],
      capacity := INIT_CAPACITY, sz := 0\<rparr>"
  have c: "clear s = Inr s'" using clear_ok[OF s(2)] by (simp add: s'_def)
  have inv': "invar s'" unfolding s'_def by (rule invar_cleared)
  have v': "view s' = ([], INIT_CAPACITY)" unfolding s'_def by (rule view_cleared)
  have e': "entries s' = []" using v' by (simp add: view_def)
  have prj: "nodes_sequence s' = []" "size_hm s' = 0" "empty_hm s'" "capacity s' = 16"
    "buckets s' = replicate 16 []"
    by (simp_all add: s'_def size_hm_def empty_hm_def INIT_CAPACITY_def)
  have f: "find_hm s' k = Inr (end_hm s')"
    using lookup_absent[OF inv', of k] by (simp add: e')
  from apply_ops_refines[OF inv', of d rest]
  obtain t where t: "apply_ops d s' rest = Inr t" "invar t"
    "view t = spec_ops d ([], INIT_CAPACITY) rest" by (auto simp: v')
  from reachable_invar[of d h rest]
  obtain t0 where t0: "apply_ops d (HashMap_init h) rest = Inr t0" "invar t0"
    "view t0 = spec_ops d ([], INIT_CAPACITY) rest" by blast
  have "view t = view t0" using t(3) t0(3) by simp
  then have same: "entries t = entries t0" "capacity t = capacity t0" by (simp_all add: view_def)
  have "size_hm t = size_hm t0"
    using invar_size[OF t(2)] invar_size[OF t0(2)] same(1) by (simp add: size_hm_def)
  then have "\<exists>t t0. apply_ops d s' rest = Inr t \<and> apply_ops d (HashMap_init h) rest = Inr t0 \<and>
        entries t = entries t0 \<and> size_hm t = size_hm t0 \<and> capacity t = capacity t0"
    using t(1) t0(1) same by blast
  then show ?thesis
    using s(1) c e' prj f by (intro exI[of _ s] exI[of _ s']) simp
qed

lemma chain_head_aligned:
  assumes ok: "chains_ok s" and split: "nodes_sequence s = xs @ p # ys"
  shows "\<exists>b. filter (\<lambda>q. q \<notin> set xs) (buckets s ! bucket_index (store s ! p)) = p # b"
proof -
  let ?i = "bucket_index (store s ! p)"
  have p: "p \<in> set (nodes_sequence s)" using split by simp
  have i: "?i < capacity s" using ok p by (simp add: chains_ok_def)
  have b: "buckets s ! ?i = chain_of (store s) ?i (xs @ p # ys)"
    using ok i split by (simp add: chains_ok_def)
  have "distinct (xs @ p # ys)" using ok split by (simp add: chains_ok_def)
  then have pn: "p \<notin> set xs" by auto
  have "filter (\<lambda>q. q \<notin> set xs) (chain_of (store s) ?i xs) = []"
    by (auto simp: chain_of_def filter_empty_conv)
  then have "filter (\<lambda>q. q \<notin> set xs) (buckets s ! ?i) =
      p # filter (\<lambda>q. q \<notin> set xs) (chain_of (store s) ?i ys)"
    using pn by (simp add: b chain_of_append chain_of_Cons)
  then show ?thesis by blast
qed

text \<open>
  Claim C10. After every sequence of public operations on a new container, every bucket
  chain consists of the nodes of the order sequence that are cached for its index, in
  the order of the order sequence, so each chain is a subsequence of the order sequence.
  Hence, for every node \<open>p\<close> of the order sequence, once the nodes in front of \<open>p\<close>
  have been taken out of their chains, \<open>p\<close> is the front of its chain: the \<^verbatim>\<open>pop_front\<close>
  of \<^verbatim>\<open>rehash()\<close> and \<^verbatim>\<open>clear()\<close> for \<open>p\<close> removes \<open>p\<close> itself. Both loops return
  normally, \<^verbatim>\<open>rehash\<close> for every new capacity.
\<close>

theorem chains_follow_order_sequence:
  "\<exists>s. apply_ops d (HashMap_init h) ops = Inr s \<and>
     (\<forall>i < capacity s. buckets s ! i = chain_of (store s) i (nodes_sequence s)) \<and>
     (\<forall>i < capacity s. subseq (buckets s ! i) (nodes_sequence s)) \<and>
     (\<forall>xs p ys. nodes_sequence s = xs @ p # ys \<longrightarrow>
        (\<exists>b. filter (\<lambda>q. q \<notin> set xs) (buckets s ! bucket_index (store s ! p)) = p # b)) \<and>
     (\<exists>s'. clear s = Inr s') \<and>
     (\<forall>c > 0. \<exists>s'. rehash (s\<lparr>capacity := c\<rparr>) = Inr s' \<and>
        (\<forall>i < c. buckets s' ! i = chain_of (store s') i (nodes_sequence s')))"
proof -
  from reachable_invar[of d h ops]
  obtain s where s: "apply_ops d (HashMap_init h) ops = Inr s" "invar s" by blast
  from s(2) have ok: "chains_ok s" by (simp add: invar_def)
  have 1: "\<forall>i < capacity s. buckets s ! i = chain_of (store s) i (nodes_sequence s)"
    using ok by (simp add: chains_ok_def)
  have 2: "\<forall>i < capacity s. subseq (buckets s ! i) (nodes_sequence s)"
    using 1 by (simp add: chain_of_def)
  have 3: "\<forall>xs p ys. nodes_sequence s = xs @ p # ys \<longrightarrow>
        (\<exists>b. filter (\<lambda>q. q \<notin> set xs) (buckets s ! bucket_index (store s ! p)) = p # b)"
    using chain_head_aligned[OF ok] by blast
  have 4: "\<exists>s'. clear s = Inr s'" using clear_ok[OF s(2)] by blast
  have 5: "\<forall>c > 0. \<exists>s'. rehash (s\<lparr>capacity := c\<rparr>) = Inr s' \<and>
        (\<forall>i < c. buckets s' ! i = chain_of (store s') i (nodes_sequence s'))"
  proof (intro allI impI)
    fix c :: nat assume c: "0 < c"
    from rehash_ok[OF ok c]
    obtain s' where "rehash (s\<lparr>capacity := c\<rparr>) = Inr s'" "chains_ok s'" "capacity s' = c"
      by blast
    then show "\<exists>s'. rehash (s\<lparr>capacity := c\<rparr>) = Inr s' \<and>
        (\<forall>i < c. buckets s' ! i = chain_of (store s') i (nodes_sequence s'))"
      by (auto simp: chains_ok_def)
  qed
  show ?thesis using s(1) 1 2 3 4 5 by blast
qed

theorem chains_follow_order_sequence_witness:
  "\<exists>s. apply_ops (0::nat) (HashMap_init id) [Insert (1::nat) 10, Insert 17 20, Insert 2 30] = Inr s \<and>
     nodes_sequence s = [2, 1, 0] \<and> capacity s = 16 \<and>
     buckets s ! 1 = [1, 0] \<and> subseq (buckets s ! 1) (nodes_sequence s) \<and>
     bucket_index (store s ! 1) = 1 \<and>
     (\<exists>b. filter (\<lambda>q. q \<notin> set [2]) (buckets s ! 1) = 1 # b)"
proof -
  from chains_follow_order_sequence[of "0::nat" id "[Insert (1::nat) 10, Insert 17 20, Insert 2 30]"]
  obtain s where s: "apply_ops (0::nat) (HashMap_init id) [Insert (1::nat) 10, Insert 17 20, Insert 2 30] = Inr s"
    and sub: "\<forall>i < capacity s. subseq (buckets s ! i) (nodes_sequence s)"
    and al: "\<forall>xs p ys. nodes_sequence s = xs @ p # ys \<longrightarrow>
        (\<exists>b. filter (\<lambda>q. q \<notin> set xs) (buckets s ! bucket_index (store s ! p)) = p # b)"
    by blast
  have st: "nodes_sequence s = [2, 1, 0]" "capacity s = 16" "buckets s ! 1 = [1, 0]"
    "bucket_index (store s ! 1) = 1"
    using s by (auto simp: hm_defs)
  have "nodes_sequence s = [2] @ 1 # [0]" by (simp add: st)
  with al have "\<exists>b. filter (\<lambda>q. q \<notin> set [2]) (buckets s ! bucket_index (store s ! 1)) = 1 # b"
    by blast
  then have a: "\<exists>b. filter (\<lambda>q. q \<notin> set [2]) (buckets s ! 1) = 1 # b"
    by (simp only: st(4))
  have "1 < capacity s" by (simp add: st)
  with sub have b: "subseq (buckets s ! 1) (nodes_sequence s)" by blast
  show ?thesis using s st a b by blast
qed

text \<open>
  Claim C4. Twelve inserts of pairwise distinct keys into a new container (capacity 16),
  for any keys, values and hash function: after each of the first eleven inserts the
  capacity is still 16; the twelfth insert, which makes the load factor 12/16, doubles
  it to 32; and afterwards \<^verbatim>\<open>at\<close> returns for each of the twelve keys the value it was
  inserted with.
\<close>

theorem capacity_doubles_at_twelfth_insert:
  assumes "distinct (map fst kvs)" and "length kvs = 12"
  shows "(\<forall>n < 12. \<exists>s. apply_ops d (HashMap_init h) (map (\<lambda>(k, v). Insert k v) (take n kvs)) = Inr s \<and>
            capacity s = 16 \<and> size_hm s = n) \<and>
         (\<exists>s. apply_ops d (HashMap_init h) (map (\<lambda>(k, v). Insert k v) kvs) = Inr s \<and>
            capacity s = 32 \<and> size_hm s = 12 \<and>
            (\<forall>(k, v) \<in> set kvs. at_hm s k = Inr v))"
proof
  show "\<forall>n < 12. \<exists>s. apply_ops d (HashMap_init h) (map (\<lambda>(k, v). Insert k v) (take n kvs)) = Inr s \<and>
            capacity s = 16 \<and> size_hm s = n"
  proof (intro allI impI)
    fix n :: nat assume n: "n < 12"
    let ?ops = "map (\<lambda>(k, v). Insert k v) (take n kvs)"
    from reachable_invar[of d h ?ops]
    obtain s where s: "apply_ops d (HashMap_init h) ?ops = Inr s" "invar s"
      "view s = spec_ops d ([], INIT_CAPACITY) ?ops" by blast
    have d: "distinct (map fst (take n kvs))"
      using assms(1) by (simp add: take_map[symmetric])
    have l: "length (take n kvs) \<le> 11" using n by simp
    have "view s = (rev (take n kvs), 16)"
      using s(3) prefix_inserts_spec[OF d l, of d] by simp
    then have e: "entries s = rev (take n kvs)" "capacity s = 16" by (simp_all add: view_def)
    have "size_hm s = n"
      using invar_size[OF s(2)] e(1) n assms(2) by (simp add: size_hm_def)
    then show "\<exists>s. apply_ops d (HashMap_init h) ?ops = Inr s \<and> capacity s = 16 \<and> size_hm s = n"
      using s(1) e(2) by blast
  qed
next
  from twelve_inserts_run[OF assms, of d h]
  obtain s where s: "apply_ops d (HashMap_init h) (map (\<lambda>(k, v). Insert k v) kvs) = Inr s"
    "invar s" "entries s = rev kvs" "capacity s = 32" "size_hm s = 12" by blast
  have "\<forall>(k, v) \<in> set kvs. at_hm s k = Inr v"
  proof (intro ballI, clarify)
    fix k v assume "(k, v) \<in> set kvs"
    then have "(k, v) \<in> set (entries s)" by (simp add: s(3))
    from lookup_entry[OF s(2) this] show "at_hm s k = Inr v" by blast
  qed
  then show "\<exists>s. apply_ops d (HashMap_init h) (map (\<lambda>(k, v). Insert k v) kvs) = Inr s \<and>
            capacity s = 32 \<and> size_hm s = 12 \<and> (\<forall>(k, v) \<in> set kvs. at_hm s k = Inr v)"
    using s(1,4,5) by blast
qed

theorem capacity_doubles_at_twelfth_insert_witness:
  "distinct (map fst [(0::nat, 10::nat), (16, 11), (32, 12), (3, 13), (4, 14), (5, 15), (6, 16),
      (7, 17), (8, 18), (9, 19), (10, 20), (11, 21)]) \<and>
   length [(0::nat, 10::nat), (16, 11), (32, 12), (3, 13), (4, 14), (5, 15), (6, 16),
      (7, 17), (8, 18), (9, 19), (10, 20), (11, 21)] = 12 \<and>
   (\<exists>s. apply_ops (0::nat) (HashMap_init id)
          [Insert (0::nat) 10, Insert 16 11, Insert 32 12, Insert 3 13, Insert 4 14, Insert 5 15,
           Insert 6 16, Insert 7 17, Insert 8 18, Insert 9 19, Insert 10 20] = Inr s \<and>
        capacity s = 16 \<and> size_hm s = 11) \<and>
   (\<exists>s. apply_ops (0::nat) (HashMap_init id)
          [Insert (0::nat) 10, Insert 16 11, Insert 32 12, Insert 3 13, Insert 4 14, Insert 5 15,
           Insert 6 16, Insert 7 17, Insert 8 18, Insert 9 19, Insert 10 20, Insert 11 21] = Inr s \<and>
        capacity s = 32 \<and> size_hm s = 12 \<and> at_hm s 32 = Inr 12 \<and> at_hm s 11 = Inr 21)"
proof -
  let ?kvs = "[(0::nat, 10::nat), (16, 11), (32, 12), (3, 13), (4, 14), (5, 15), (6, 16),
      (7, 17), (8, 18), (9, 19), (10, 20), (11, 21)]"
  have 1: "distinct (map fst ?kvs)" by simp
  have 2: "length ?kvs = 12" by simp
  from capacity_doubles_at_twelfth_insert[OF 1 2, of "0::nat" id]
  have a: "\<forall>n < 12. \<exists>s. apply_ops (0::nat) (HashMap_init id)
              (map (\<lambda>(k, v). Insert k v) (take n ?kvs)) = Inr s \<and> capacity s = 16 \<and> size_hm s = n"
    and b: "\<exists>s. apply_ops (0::nat) (HashMap_init id) (map (\<lambda>(k, v). Insert k v) ?kvs) = Inr s \<and>
            capacity s = 32 \<and> size_hm s = 12 \<and> (\<forall>(k, v) \<in> set ?kvs. at_hm s k = Inr v)"
    by blast+
  have "(11::nat) < 12" by simp
  with a have "\<exists>s. apply_ops (0::nat) (HashMap_init id)
              (map (\<lambda>(k, v). Insert k v) (take 11 ?kvs)) = Inr s \<and> capacity s = 16 \<and> size_hm s = 11"
    by blast
  then have a': "\<exists>s. apply_ops (0::nat) (HashMap_init id)
          [Insert (0::nat) 10, Insert 16 11, Insert 32 12, Insert 3 13, Insert 4 14, Insert 5 15,
           Insert 6 16, Insert 7 17, Insert 8 18, Insert 9 19, Insert 10 20] = Inr s \<and>
        capacity s = 16 \<and> size_hm s = 11"
    by (simp del: apply_ops.simps)
  from b have b': "\<exists>s. apply_ops (0::nat) (HashMap_init id)
          [Insert (0::nat) 10, Insert 16 11, Insert 32 12, Insert 3 13, Insert 4 14, Insert 5 15,
           Insert 6 16, Insert 7 17, Insert 8 18, Insert 9 19, Insert 10 20, Insert 11 21] = Inr s \<and>
        capacity s = 32 \<and> size_hm s = 12 \<and> at_hm s 32 = Inr 12 \<and> at_hm s 11 = Inr 21"
    by (simp del: apply_ops.simps) blast
  show ?thesis using 1 2 a' b' by blast
qed

text \<open>
  Claim C5. In every state that public operations reach with 12 entries and capacity
  32, erasing seven present, pairwise distinct keys one at a time: after each of the
  first six erases (11 down to 6 entries) the capacity is still 32; the seventh erase,
  which leaves 5 entries and the load factor 5/32, halves the capacity to 16; and
  afterwards \<^verbatim>\<open>at\<close> returns for each of the five remaining keys the value it had.
\<close>

theorem capacity_halves_at_five_entries:
  assumes "apply_ops d (HashMap_init h) pre = Inr s0"
    and "size_hm s0 = 12" and "capacity s0 = 32"
    and "distinct ks" and "set ks \<subseteq> fst ` set (entries s0)" and "length ks = 7"
  shows "(\<forall>n < 7. \<exists>s. apply_ops d s0 (map Erase (take n ks)) = Inr s \<and>
            capacity s = 32 \<and> size_hm s = 12 - n) \<and>
         (\<exists>s. apply_ops d s0 (map Erase ks) = Inr s \<and> capacity s = 16 \<and> size_hm s = 5 \<and>
            (\<forall>(k, v) \<in> set (entries s0). k \<notin> set ks \<longrightarrow> at_hm s k = Inr v))"
proof
  from reachable_invar[of d h pre] assms(1) have inv0: "invar s0" by auto
  then have ok0: "chains_ok s0" by (simp add: invar_def)
  have dk: "distinct (map fst (entries s0))"
    using ok0 by (simp add: chains_ok_def entries_def key_def comp_def)
  have len: "length (entries s0) = 12" using invar_size[OF inv0] assms(2) by (simp add: size_hm_def)
  have v0: "view s0 = (entries s0, 32)" using assms(3) by (simp add: view_def)
  show "\<forall>n < 7. \<exists>s. apply_ops d s0 (map Erase (take n ks)) = Inr s \<and>
            capacity s = 32 \<and> size_hm s = 12 - n"
  proof (intro allI impI)
    fix n :: nat assume n: "n < 7"
    let ?ks = "take n ks"
    from apply_ops_refines[OF inv0, of d "map Erase ?ks"]
    obtain s where s: "apply_ops d s0 (map Erase ?ks) = Inr s" "invar s"
      "view s = spec_ops d (view s0) (map Erase ?ks)" by blast
    have 1: "distinct ?ks" using assms(4) by simp
    have 2: "set ?ks \<subseteq> fst ` set (entries s0)"
      using assms(5) set_take_subset[of n ks] by blast
    have 3: "length (entries s0) \<le> 23" using len by simp
    have 4: "6 + length ?ks \<le> length (entries s0)" using len n assms(6) by simp
    have v: "view s = (filter (\<lambda>e. fst e \<notin> set ?ks) (entries s0), 32)"
      using s(3) erases_spec[OF dk 1 2 3 4, of d] by (simp add: v0)
    then have e: "entries s = filter (\<lambda>e. fst e \<notin> set ?ks) (entries s0)" "capacity s = 32"
      by (simp_all add: view_def)
    have "length (filter (\<lambda>e. fst e \<notin> set ?ks) (entries s0)) +
          length (filter (\<lambda>e. fst e \<in> set ?ks) (entries s0)) = length (entries s0)"
      using sum_length_filter_compl[of "\<lambda>e. fst e \<notin> set ?ks" "entries s0"] by simp
    moreover have "length (filter (\<lambda>e. fst e \<in> set ?ks) (entries s0)) = length ?ks"
    proof -
      have "distinct (map fst (filter (\<lambda>e. fst e \<in> set ?ks) (entries s0)))"
        using dk by (simp add: distinct_map_filter)
      moreover have "set (map fst (filter (\<lambda>e. fst e \<in> set ?ks) (entries s0))) = set ?ks"
        using 2 by (auto simp: image_iff)
      ultimately have "card (set ?ks) = length (map fst (filter (\<lambda>e. fst e \<in> set ?ks) (entries s0)))"
        by (metis distinct_card)
      moreover have "card (set ?ks) = length ?ks" using 1 by (simp add: distinct_card)
      ultimately show ?thesis by simp
    qed
    ultimately have "length (entries s) = 12 - n" using len n assms(6) by (simp add: e(1))
    then have "size_hm s = 12 - n" using invar_size[OF s(2)] by (simp add: size_hm_def)
    then show "\<exists>s. apply_ops d s0 (map Erase (take n ks)) = Inr s \<and>
            capacity s = 32 \<and> size_hm s = 12 - n"
      using s(1) e(2) by blast
  qed
  from apply_ops_refines[OF inv0, of d "map Erase ks"]
  obtain s where s: "apply_ops d s0 (map Erase ks) = Inr s" "invar s"
    "view s = spec_ops d (view s0) (map Erase ks)" by blast
  have v: "view s = (filter (\<lambda>e. fst e \<notin> set ks) (entries s0), 16)"
    using s(3) seven_erases_spec[OF dk len assms(4,5,6), of d] by (simp add: v0)
  then have e: "entries s = filter (\<lambda>e. fst e \<notin> set ks) (entries s0)" "capacity s = 16"
    by (simp_all add: view_def)
  have "length (filter (\<lambda>e. fst e \<notin> set ks) (entries s0)) +
        length (filter (\<lambda>e. fst e \<in> set ks) (entries s0)) = length (entries s0)"
    using sum_length_filter_compl[of "\<lambda>e. fst e \<notin> set ks" "entries s0"] by simp
  moreover have "length (filter (\<lambda>e. fst e \<in> set ks) (entries s0)) = length ks"
  proof -
    have "distinct (map fst (filter (\<lambda>e. fst e \<in> set ks) (entries s0)))"
      using dk by (simp add: distinct_map_filter)
    moreover have "set (map fst (filter (\<lambda>e. fst e \<in> set ks) (entries s0))) = set ks"
      using assms(5) by (auto simp: image_iff)
    ultimately have "card (set ks) = length (map fst (filter (\<lambda>e. fst e \<in> set ks) (entries s0)))"
      by (metis distinct_card)
    moreover have "card (set ks) = length ks" using assms(4) by (simp add: distinct_card)
    ultimately show ?thesis by simp
  qed
  ultimately have "length (entries s) = 5" using len assms(6) by (simp add: e(1))
  then have sz: "size_hm s = 5" using invar_size[OF s(2)] by (simp add: size_hm_def)
  have "\<forall>(k, v) \<in> set (entries s0). k \<notin> set ks \<longrightarrow> at_hm s k = Inr v"
  proof (intro ballI, clarify)
    fix k v assume "(k, v) \<in> set (entries s0)" "k \<notin> set ks"
    then have "(k, v) \<in> set (entries s)" by (simp add: e(1))
    from lookup_entry[OF s(2) this] show "at_hm s k = Inr v" by blast
  qed
  then show "\<exists>s. apply_ops d s0 (map Erase ks) = Inr s \<and> capacity s = 16 \<and> size_hm s = 5 \<and>
            (\<forall>(k, v) \<in> set (entries s0). k \<notin> set ks \<longrightarrow> at_hm s k = Inr v)"
    using s(1) e(2) sz by blast
qed

theorem capacity_halves_at_five_entries_witness:
  "\<exists>s0. apply_ops (0::nat) (HashMap_init id)
          [Insert (0::nat) 10, Insert 16 11, Insert 32 12, Insert 3 13, Insert 4 14, Insert 5 15,
           Insert 6 16, Insert 7 17, Insert 8 18, Insert 9 19, Insert 10 20, Insert 11 21] = Inr s0 \<and>
     size_hm s0 = 12 \<and> capacity s0 = 32 \<and>
     distinct [0, 16, 32, 3, 4, 5, 6 :: nat] \<and>
     set [0, 16, 32, 3, 4, 5, 6] \<subseteq> fst ` set (entries s0) \<and>
     length [0, 16, 32, 3, 4, 5, 6 :: nat] = 7 \<and>
     (\<exists>s. apply_ops 0 s0 [Erase 0, Erase 16, Erase 32, Erase 3, Erase 4, Erase 5] = Inr s \<and>
          capacity s = 32 \<and> size_hm s = 6) \<and>
     (\<exists>s. apply_ops 0 s0 [Erase 0, Erase 16, Erase 32, Erase 3, Erase 4, Erase 5, Erase 6] = Inr s \<and>
          capacity s = 16 \<and> size_hm s = 5 \<and> at_hm s 11 = Inr 21 \<and> at_hm s 7 = Inr 17)"
proof -
  let ?kvs = "[(0::nat, 10::nat), (16, 11), (32, 12), (3, 13), (4, 14), (5, 15), (6, 16),
      (7, 17), (8, 18), (9, 19), (10, 20), (11, 21)]"
  let ?ks = "[0, 16, 32, 3, 4, 5, 6 :: nat]"
  have "distinct (map fst ?kvs)" "length ?kvs = 12" by simp_all
  from twelve_inserts_run[OF this, of "0::nat" id]
  obtain s0 where s0: "apply_ops (0::nat) (HashMap_init id) (map (\<lambda>(k, v). Insert k v) ?kvs) = Inr s0"
    "entries s0 = rev ?kvs" "capacity s0 = 32" "size_hm s0 = 12" by blast
  have 4: "distinct ?ks" by simp
  have 5: "set ?ks \<subseteq> fst ` set (entries s0)" by (simp add: s0(2))
  have 6: "length ?ks = 7" by simp
  from capacity_halves_at_five_entries[OF s0(1,4,3) 4 5 6]
  have a: "\<forall>n < 7. \<exists>s. apply_ops 0 s0 (map Erase (take n ?ks)) = Inr s \<and>
            capacity s = 32 \<and> size_hm s = 12 - n"
    and b: "\<exists>s. apply_ops 0 s0 (map Erase ?ks) = Inr s \<and> capacity s = 16 \<and> size_hm s = 5 \<and>
            (\<forall>(k, v) \<in> set (entries s0). k \<notin> set ?ks \<longrightarrow> at_hm s k = Inr v)"
    by blast+
  have "(6::nat) < 7" by simp
  with a have "\<exists>s. apply_ops 0 s0 (map Erase (take 6 ?ks)) = Inr s \<and>
            capacity s = 32 \<and> size_hm s = 12 - 6" by blast
  then have a': "\<exists>s. apply_ops 0 s0 [Erase 0, Erase 16, Erase 32, Erase 3, Erase 4, Erase 5] = Inr s \<and>
          capacity s = 32 \<and> size_hm s = 6"
    by (simp del: apply_ops.simps)
  from b have b': "\<exists>s. apply_ops 0 s0 [Erase 0, Erase 16, Erase 32, Erase 3, Erase 4, Erase 5, Erase 6] = Inr s \<and>
          capacity s = 16 \<and> size_hm s = 5 \<and> at_hm s 11 = Inr 21 \<and> at_hm s 7 = Inr 17"
    by (simp add: s0(2) del: apply_ops.simps) blast
  have run: "apply_ops (0::nat) (HashMap_init id)
          [Insert (0::nat) 10, Insert 16 11, Insert 32 12, Insert 3 13, Insert 4 14, Insert 5 15,
           Insert 6 16, Insert 7 17, Insert 8 18, Insert 9 19, Insert 10 20, Insert 11 21] = Inr s0"
    using s0(1) by (simp del: apply_ops.simps)
  show ?thesis using run s0(3,4) 4 5 6 a' b' by blast
qed

text \<open>
  Claim C8, as amended. Let the chains be aligned with the order sequence, as they are in
  every state in which the code calls \<^verbatim>\<open>rehash\<close>. For every new capacity, \<^verbatim>\<open>rehash\<close>
  returns normally: the order sequence, the pairs and the positions of the nodes are
  untouched; the cached bucket index of every node is recomputed as
  \<open>hash(key) mod capacity\<close>; and every chain of the new table lists the nodes with its
  index in the order of the order sequence. So a node is appended at the tail of its new
  chain, not put at its head: of two nodes that meet in a chain, the one that the order
  sequence visits first comes first.
\<close>

theorem rehash_appends_in_sequence_order:
  assumes "chains_ok s" and "0 < c"
  shows "\<exists>s'. rehash (s\<lparr>capacity := c\<rparr>) = Inr s' \<and>
           nodes_sequence s' = nodes_sequence s \<and> entries s' = entries s \<and>
           capacity s' = c \<and> length (buckets s') = c \<and>
           (\<forall>p \<in> set (nodes_sequence s).
              map_pair (store s' ! p) = map_pair (store s ! p) \<and>
              sequence_pos (store s' ! p) = sequence_pos (store s ! p) \<and>
              bucket_index (store s' ! p) = hasher s (key (store s ! p)) mod c) \<and>
           (\<forall>i < c. buckets s' ! i =
              filter (\<lambda>p. hasher s (key (store s ! p)) mod c = i) (nodes_sequence s))"
proof -
  from rehash_ok[OF assms]
  obtain s' where s': "rehash (s\<lparr>capacity := c\<rparr>) = Inr s'" "chains_ok s'" "capacity s' = c"
    "nodes_sequence s' = nodes_sequence s" "hasher s' = hasher s"
    "same_pairs (store s) (store s')" by blast
  have lt: "\<forall>p \<in> set (nodes_sequence s). p < length (store s)"
    using assms(1) by (simp add: chains_ok_def)
  have ent: "entries s' = entries s"
    using same_pairs_map_pair[OF s'(6) lt] by (simp add: entries_def s'(4))
  have nodes: "\<forall>p \<in> set (nodes_sequence s).
              map_pair (store s' ! p) = map_pair (store s ! p) \<and>
              sequence_pos (store s' ! p) = sequence_pos (store s ! p) \<and>
              bucket_index (store s' ! p) = hasher s (key (store s ! p)) mod c"
  proof
    fix p assume p: "p \<in> set (nodes_sequence s)"
    then have pl: "p < length (store s)" using lt by blast
    have "bucket_index (store s' ! p) = hasher s' (key (store s' ! p)) mod capacity s'"
      using s'(2,4) p by (simp add: chains_ok_def)
    then have "bucket_index (store s' ! p) = hasher s (key (store s ! p)) mod c"
      by (simp add: s'(3,5) same_pairs_key[OF s'(6) pl])
    then show "map_pair (store s' ! p) = map_pair (store s ! p) \<and>
              sequence_pos (store s' ! p) = sequence_pos (store s ! p) \<and>
              bucket_index (store s' ! p) = hasher s (key (store s ! p)) mod c"
      using s'(6) pl by (simp add: same_pairs_def)
  qed
  have chains: "\<forall>i < c. buckets s' ! i =
              filter (\<lambda>p. hasher s (key (store s ! p)) mod c = i) (nodes_sequence s)"
  proof (intro allI impI)
    fix i assume i: "i < c"
    have "buckets s' ! i = chain_of (store s') i (nodes_sequence s)"
      using s'(2,3,4) i by (simp add: chains_ok_def)
    also have "\<dots> = filter (\<lambda>p. hasher s (key (store s ! p)) mod c = i) (nodes_sequence s)"
      unfolding chain_of_def using nodes by (intro filter_cong) auto
    finally show "buckets s' ! i =
        filter (\<lambda>p. hasher s (key (store s ! p)) mod c = i) (nodes_sequence s)" .
  qed
  have "length (buckets s') = c" using s'(2,3) by (simp add: chains_ok_def)
  then show ?thesis using s'(1,3,4) ent nodes chains by blast
qed

theorem rehash_appends_in_sequence_order_witness:
  "\<exists>s s'. apply_ops (0::nat) (HashMap_init id) [Insert (0::nat) 10, Insert 16 11, Insert 8 12] = Inr s \<and>
     chains_ok s \<and> nodes_sequence s = [2, 1, 0] \<and>
     rehash (s\<lparr>capacity := 8\<rparr>) = Inr s' \<and> nodes_sequence s' = [2, 1, 0] \<and>
     buckets s' ! 0 = [2, 1, 0] \<and> bucket_index (store s' ! 2) = 0"
proof -
  from reachable_invar[of "0::nat" id "[Insert (0::nat) 10, Insert 16 11, Insert 8 12]"]
  obtain s where s: "apply_ops (0::nat) (HashMap_init id) [Insert (0::nat) 10, Insert 16 11, Insert 8 12] = Inr s"
    "invar s" "hasher s = id" by blast
  have ok: "chains_ok s" using s(2) by (simp add: invar_def)
  have st: "nodes_sequence s = [2, 1, 0]" "key (store s ! 0) = 0" "key (store s ! 1) = 16"
    "key (store s ! 2) = 8"
    using s(1) by (auto simp: hm_defs)
  from rehash_appends_in_sequence_order[OF ok, of 8]
  obtain s' where s': "rehash (s\<lparr>capacity := 8\<rparr>) = Inr s'" "nodes_sequence s' = nodes_sequence s"
    and n: "\<forall>p \<in> set (nodes_sequence s). bucket_index (store s' ! p) = hasher s (key (store s ! p)) mod 8"
    and c: "\<forall>i < 8. buckets s' ! i = filter (\<lambda>p. hasher s (key (store s ! p)) mod 8 = i) (nodes_sequence s)"
    by auto
  have "buckets s' ! 0 = filter (\<lambda>p. hasher s (key (store s ! p)) mod 8 = 0) (nodes_sequence s)"
    using c by simp
  moreover have "key (store s ! Suc 0) = 16" using st(3) by simp
  ultimately have b: "buckets s' ! 0 = [2, 1, 0]" by (simp add: st s(3))
  have "2 \<in> set (nodes_sequence s)" by (simp add: st)
  with n have "bucket_index (store s' ! 2) = hasher s (key (store s ! 2)) mod 8" by blast
  then have i: "bucket_index (store s' ! 2) = 0" by (simp add: st s(3))
  show ?thesis using s(1) ok st(1) s'(1,2) b i by (intro exI[of _ s] exI[of _ s']) simp
qed

text \<open>
  The claim C8 as it is stated, with every node inserted at the head of its new chain,
  fails. Twelve inserts grow the table to capacity 32, where the keys 0 (node 0) and 16
  (node 1) lie in the chains 0 and 16; seven erases then shrink it to capacity 16, and
  the rehash moves both nodes into chain 0. The order sequence visits node 1 before
  node 0. Insertion at the head would leave node 0, handled last, in front of node 1;
  the code appends, and the chain is \<open>[1, 0]\<close>.
\<close>

theorem rehash_head_counterexample:
  "observe_after (0::nat) id
     [Insert (0::nat) 0, Insert 16 1, Insert 1 2, Insert 2 3, Insert 3 4, Insert 4 5, Insert 5 6,
      Insert 6 7, Insert 7 8, Insert 8 9, Insert 9 10, Insert 10 11,
      Erase 1, Erase 2, Erase 3, Erase 4, Erase 5, Erase 6, Erase 7] =
   Inr (16, [11, 10, 9, 1, 0],
        [[1, 0], [], [], [], [], [], [], [], [9], [10], [11], [], [], [], [], []])"
  by code_simp

end
